theory Spec2Isabelle
  imports Complex_Main
begin

section \<open>Binning utilities of xcms (\<^verbatim>\<open>src/binners.c\<close>)\<close>

text \<open>
  The C file bins a vector \<^verbatim>\<open>x\<close> on break points and aggregates the values of a
  parallel vector \<^verbatim>\<open>y\<close> per bin. This theory embeds its functions and proves
  properties of them.

  Conventions of the embedding.
  \<^item> A C \<^verbatim>\<open>double\<close> is a value of the type \<open>double\<close>: a finite real, plus or minus
    infinity, or not a number. Every arithmetic operation rounds its exact result to
    the nearest binary64 number, ties to even, as IEEE 754 prescribes (\<open>rnd\<close>); it
    overflows to an infinity and underflows through the subnormal numbers. Positive
    and negative zero are not told apart: they compare equal, and the one division
    by zero whose result the code keeps (line 214) divides by a difference \<open>v - v\<close>,
    which is the positive zero.
  \<^item> A \<^verbatim>\<open>double\<close> that the code tests with \<^verbatim>\<open>ISNA\<close> (the values of \<^verbatim>\<open>y\<close>, the
    result buffer, \<^verbatim>\<open>initValue\<close>) is a \<open>double option\<close>; \<open>None\<close> is \<^verbatim>\<open>NA_REAL\<close>. The code
    never does arithmetic on such a value before it has tested it. Among the positions
    (\<^verbatim>\<open>x\<close>, the breaks, \<^verbatim>\<open>fromX\<close>, \<^verbatim>\<open>toX\<close>, \<^verbatim>\<open>binSize\<close>) \<^verbatim>\<open>NA\<close> is one of the values that
    are not a number (\<open>NaN\<close>), which is all the code can see of it.
  \<^item> A C \<^verbatim>\<open>int\<close> is an \<open>int\<close>; \<^verbatim>\<open>NA_INTEGER\<close> for \<^verbatim>\<open>nBins\<close> is \<open>None\<close>. The conversion
    \<^verbatim>\<open>(int)ceil(...)\<close> and the sum \<^verbatim>\<open>n_bin + 1\<close> are checked for the range of \<^verbatim>\<open>int\<close>
    (\<open>Undefined\<close> outside). The other integer arithmetic of the code counts indices and
    samples of buffers it has already read, and stays in that range.
  \<^item> An array is a list, read and written through \<open>rd\<close> and \<open>wr\<close>, which check the
    index. An access outside the buffer is undefined in C and is the outcome
    \<open>Undefined\<close> here.
  \<^item> A call of \<^verbatim>\<open>error(...)\<close> is the outcome \<open>InvalidArgument\<close> with the message of
    the call; every function that can fail returns \<open>error + result\<close>.
  \<^item> \<^verbatim>\<open>Rprintf\<close>, \<^verbatim>\<open>PROTECT\<close> and \<^verbatim>\<open>UNPROTECT\<close> have no effect on the result and
    are left out.
  \<^item> An identifier cannot start with an underscore: \<^verbatim>\<open>_breaks_on_nBins\<close> and
    \<^verbatim>\<open>_breaks_on_binSize\<close> are \<open>breaks_on_nBins_internal\<close> and
    \<open>breaks_on_binSize_internal\<close>; the other static functions lose the underscore.
\<close>

subsection \<open>Doubles\<close>

datatype double = Fin real | PInf | MInf | NaN

text \<open>\<open>bit_length n\<close> is the number of binary digits of a positive \<open>n\<close>, and \<open>exponent_of a\<close>, for a
  positive \<open>a\<close>, the integer \<open>e\<close> with \<open>2 ^ e \<le> a < 2 ^ (e + 1)\<close>.\<close>

function bit_length :: "int \<Rightarrow> int" where
  "bit_length n = (if n \<le> 0 then 0 else 1 + bit_length (n div 2))"
  by pat_completeness auto
termination
  by (relation "measure nat") auto

declare bit_length.simps [simp del]

definition pow2 :: "int \<Rightarrow> real" where
  "pow2 e = (if 0 \<le> e then 2 ^ nat e else 1 / 2 ^ nat (- e))"

definition exponent_of :: "real \<Rightarrow> int" where
  "exponent_of a =
     (if 1 \<le> a then bit_length \<lfloor>a\<rfloor> - 1
      else - bit_length (\<lceil>1 / a\<rceil> - 1))"

text \<open>Rounding of a non-negative real to the nearest integer, ties to the even one.\<close>

definition round_half_even :: "real \<Rightarrow> int" where
  "round_half_even t =
     (let f = \<lfloor>t\<rfloor>; d = t - real_of_int f
      in if d < 1 / 2 then f
         else if 1 / 2 < d then f + 1
         else if even f then f else f + 1)"

text \<open>Rounding of a real to binary64. A number of exponent \<open>e\<close> has 53 significant bits,
  so that its last bit is worth \<open>2 ^ (e - 52)\<close>; below \<open>2 ^ (- 1022)\<close> the numbers are
  subnormal and the last bit is worth \<open>2 ^ (- 1074)\<close>. A result of \<open>2 ^ 1024\<close> or more
  is an overflow.\<close>

definition rnd :: "real \<Rightarrow> double" where
  "rnd r =
     (if r = 0 then Fin 0
      else
        (let a = \<bar>r\<bar>;
             e = max (exponent_of a) (- 1022);
             q = pow2 (e - 52);
             v = real_of_int (round_half_even (a / q)) * q
         in if e < 1023 then Fin (if 0 < r then v else - v)
            else if pow2 1024 \<le> v then (if 0 < r then PInf else MInf)
            else Fin (if 0 < r then v else - v)))"

definition dneg :: "double \<Rightarrow> double" where
  "dneg a = (case a of Fin u \<Rightarrow> Fin (- u) | PInf \<Rightarrow> MInf | MInf \<Rightarrow> PInf | NaN \<Rightarrow> NaN)"

definition dadd :: "double \<Rightarrow> double \<Rightarrow> double" where
  "dadd a b =
     (case a of
        NaN \<Rightarrow> NaN
      | Fin u \<Rightarrow> (case b of Fin v \<Rightarrow> rnd (u + v) | PInf \<Rightarrow> PInf | MInf \<Rightarrow> MInf | NaN \<Rightarrow> NaN)
      | PInf \<Rightarrow> (case b of Fin v \<Rightarrow> PInf | PInf \<Rightarrow> PInf | MInf \<Rightarrow> NaN | NaN \<Rightarrow> NaN)
      | MInf \<Rightarrow> (case b of Fin v \<Rightarrow> MInf | PInf \<Rightarrow> NaN | MInf \<Rightarrow> MInf | NaN \<Rightarrow> NaN))"

definition dsub :: "double \<Rightarrow> double \<Rightarrow> double" where
  "dsub a b = dadd a (dneg b)"

definition ddiv :: "double \<Rightarrow> double \<Rightarrow> double" where
  "ddiv a b =
     (case a of
        NaN \<Rightarrow> NaN
      | Fin u \<Rightarrow>
          (case b of
             Fin v \<Rightarrow> (if v = 0 then (if u = 0 then NaN else if 0 < u then PInf else MInf)
                       else rnd (u / v))
           | PInf \<Rightarrow> Fin 0 | MInf \<Rightarrow> Fin 0 | NaN \<Rightarrow> NaN)
      | PInf \<Rightarrow>
          (case b of Fin v \<Rightarrow> (if v < 0 then MInf else PInf)
           | PInf \<Rightarrow> NaN | MInf \<Rightarrow> NaN | NaN \<Rightarrow> NaN)
      | MInf \<Rightarrow>
          (case b of Fin v \<Rightarrow> (if v < 0 then PInf else MInf)
           | PInf \<Rightarrow> NaN | MInf \<Rightarrow> NaN | NaN \<Rightarrow> NaN))"

text \<open>The comparisons; each is false when an operand is not a number.\<close>

definition dlt :: "double \<Rightarrow> double \<Rightarrow> bool" where
  "dlt a b =
     (case a of
        NaN \<Rightarrow> False
      | Fin u \<Rightarrow> (case b of Fin v \<Rightarrow> u < v | PInf \<Rightarrow> True | MInf \<Rightarrow> False | NaN \<Rightarrow> False)
      | PInf \<Rightarrow> False
      | MInf \<Rightarrow> (case b of Fin v \<Rightarrow> True | PInf \<Rightarrow> True | MInf \<Rightarrow> False | NaN \<Rightarrow> False))"

definition deq :: "double \<Rightarrow> double \<Rightarrow> bool" where
  "deq a b = (a \<noteq> NaN \<and> a = b)"

definition dle :: "double \<Rightarrow> double \<Rightarrow> bool" where
  "dle a b = (dlt a b \<or> deq a b)"

definition dgt :: "double \<Rightarrow> double \<Rightarrow> bool" where
  "dgt a b = dlt b a"

definition dge :: "double \<Rightarrow> double \<Rightarrow> bool" where
  "dge a b = dle b a"

text \<open>The conversion of an \<^verbatim>\<open>int\<close> to \<^verbatim>\<open>double\<close>, which is exact.\<close>

definition double_of_int :: "int \<Rightarrow> double" where
  "double_of_int n = Fin (real_of_int n)"

subsection \<open>Missing values, errors, arrays\<close>

type_synonym dbl = "double option"

abbreviation NA_REAL :: dbl where
  "NA_REAL \<equiv> None"

definition ISNA :: "dbl \<Rightarrow> bool" where
  "ISNA v = (v = None)"

datatype error =
    InvalidArgument string
  | NegativeLength
  | Undefined

text \<open>
  \<open>InvalidArgument m\<close>: the code called \<^verbatim>\<open>error(m)\<close>.
  \<open>NegativeLength\<close>: \<^verbatim>\<open>allocVector\<close> was asked for a negative length, which the host
  refuses with an error of its own.
  \<open>Undefined\<close>: the C standard gives the step no meaning (an access outside a buffer,
  the conversion to \<^verbatim>\<open>int\<close> of a value that is not finite or not in its range, a
  signed overflow, a variable-length array of no cells).
\<close>

definition ebind :: "error + 'a \<Rightarrow> ('a \<Rightarrow> error + 'b) \<Rightarrow> error + 'b" where
  "ebind m f = (case m of Inl e \<Rightarrow> Inl e | Inr v \<Rightarrow> f v)"

definition rd :: "'a list \<Rightarrow> int \<Rightarrow> error + 'a" where
  "rd xs i = (if 0 \<le> i \<and> i < int (length xs) then Inr (xs ! nat i) else Inl Undefined)"

definition wr :: "'a list \<Rightarrow> int \<Rightarrow> 'a \<Rightarrow> error + 'a list" where
  "wr xs i v = (if 0 \<le> i \<and> i < int (length xs) then Inr (xs[nat i := v]) else Inl Undefined)"

text \<open>\<^verbatim>\<open>allocVector(REALSXP, n)\<close> of the host: a fresh buffer of \<open>n\<close> cells. The host leaves
  the cells uninitialised; every caller below writes each cell before it is read, and
  the model fills them with the value \<open>fill\<close>.\<close>

definition allocVector :: "'a \<Rightarrow> int \<Rightarrow> error + 'a list" where
  "allocVector fill n = (if n < 0 then Inl NegativeLength else Inr (replicate (nat n) fill))"

text \<open>\<^verbatim>\<open>(int)ceil(d)\<close>. The ceiling of a double is a double; converting a value that
  is not finite, or lies outside the range of \<^verbatim>\<open>int\<close>, is undefined.\<close>

definition int_ceil :: "double \<Rightarrow> error + int" where
  "int_ceil d =
     (case d of
        Fin r \<Rightarrow> (let c = \<lceil>r\<rceil>
                  in if - 2147483648 \<le> c \<and> c \<le> 2147483647 then Inr c else Inl Undefined)
      | PInf \<Rightarrow> Inl Undefined
      | MInf \<Rightarrow> Inl Undefined
      | NaN \<Rightarrow> Inl Undefined)"

text \<open>The sum of two \<^verbatim>\<open>int\<close>; signed overflow is undefined.\<close>

definition int_add :: "int \<Rightarrow> int \<Rightarrow> error + int" where
  "int_add a b =
     (if - 2147483648 \<le> a + b \<and> a + b \<le> 2147483647 then Inr (a + b) else Inl Undefined)"

text \<open>A C loop \<^verbatim>\<open>for (i = i0; i < n; i++) body\<close> over a state \<open>s\<close>.\<close>

function for_loop :: "int \<Rightarrow> int \<Rightarrow> (int \<Rightarrow> 's \<Rightarrow> error + 's) \<Rightarrow> 's \<Rightarrow> error + 's" where
  "for_loop i n body s =
     (if i < n
      then (case body i s of Inl e \<Rightarrow> Inl e | Inr s' \<Rightarrow> for_loop (i + 1) n body s')
      else Inr s)"
  by pat_completeness auto
termination
  by (relation "measure (\<lambda>(i, n, body, s). nat (n - i))") auto

declare for_loop.simps [simp del]

subsection \<open>Break points\<close>

text \<open>\<^verbatim>\<open>_breaks_on_nBins\<close> (lines 206-225). The loop state is the buffer and
  \<^verbatim>\<open>current_val\<close>. When \<open>n_bin = shift_by_half_bin_size\<close> the divisor is zero and
  \<^verbatim>\<open>bin_size\<close> is an infinity or not a number; the function stores what the arithmetic
  gives and returns.\<close>

definition breaks_on_nBins_internal ::
  "double \<Rightarrow> double \<Rightarrow> int \<Rightarrow> double list \<Rightarrow> int \<Rightarrow> error + double list" where
  "breaks_on_nBins_internal from_val to_val n_bin brks shift_by_half_bin_size =
     (let bin_size = ddiv (dsub to_val from_val)
                       (dsub (double_of_int n_bin) (double_of_int shift_by_half_bin_size));
          current_val = (if shift_by_half_bin_size > 0
                         then dsub from_val (ddiv bin_size (Fin 2))
                         else from_val)
      in ebind (for_loop 0 (n_bin + 1)
                  (\<lambda>i (brks, current_val).
                     ebind (wr brks i current_val)
                       (\<lambda>brks. Inr (brks, dadd current_val bin_size)))
                  (brks, current_val))
           (\<lambda>(brks, current_val). Inr brks))"

text \<open>\<^verbatim>\<open>_breaks_on_binSize\<close> (lines 230-244).\<close>

definition breaks_on_binSize_internal ::
  "double \<Rightarrow> double \<Rightarrow> int \<Rightarrow> double \<Rightarrow> double list \<Rightarrow> error + double list" where
  "breaks_on_binSize_internal from_val to_val n_bin bin_size brks =
     ebind (for_loop 0 n_bin
              (\<lambda>i (brks, current_val).
                 ebind (wr brks i current_val)
                   (\<lambda>brks. Inr (brks, dadd current_val bin_size)))
              (brks, from_val))
       (\<lambda>(brks, current_val). wr brks n_bin to_val)"

text \<open>The entry points \<^verbatim>\<open>breaks_on_nBins\<close> (lines 167-178) and \<^verbatim>\<open>breaks_on_binSize\<close>
  (lines 183-195).\<close>

definition breaks_on_nBins :: "double \<Rightarrow> double \<Rightarrow> int \<Rightarrow> error + double list" where
  "breaks_on_nBins fromX toX nBins =
     (let n_bin = nBins; from_x = fromX; to_x = toX
      in ebind (int_add n_bin 1)
           (\<lambda>len. ebind (allocVector (Fin 0) len)
              (\<lambda>ans. breaks_on_nBins_internal from_x to_x n_bin ans 0)))"

definition breaks_on_binSize :: "double \<Rightarrow> double \<Rightarrow> double \<Rightarrow> error + double list" where
  "breaks_on_binSize fromX toX binSize =
     (let bin_size = binSize; from_x = fromX; to_x = toX
      in ebind (int_ceil (ddiv (dsub to_x from_x) bin_size))
           (\<lambda>n_bin. ebind (int_add n_bin 1)
              (\<lambda>len. ebind (allocVector (Fin 0) len)
                 (\<lambda>ans. breaks_on_binSize_internal from_x to_x n_bin bin_size ans))))"

subsection \<open>The scan over the bins\<close>

text \<open>
  The four functions \<^verbatim>\<open>_bin_y_on_x_with_breaks_max\<close>, \<^verbatim>\<open>..._min\<close>, \<^verbatim>\<open>..._sum\<close> and
  \<^verbatim>\<open>..._mean\<close> (lines 259-433) are the same two nested loops around four different
  innermost statements. The loops are embedded once, over a state \<open>'s\<close> and two
  parameters: \<open>enter i\<close>, the statement at the head of the body of the outer loop (only
  the mean has one, \<^verbatim>\<open>el_count[i] = 0\<close>), and \<open>fold_y i x_current_idx\<close>, the
  statement executed for the sample \<open>x_current_idx\<close> once it is found to lie in bin \<open>i\<close>.

  \<open>scan_while\<close> is the inner \<^verbatim>\<open>while (x_current_idx <= x_end_idx)\<close> for the bin \<open>i\<close>; it
  returns the cursor and the state at the end of the loop, which is left either by its
  condition or by the \<^verbatim>\<open>break\<close>.
\<close>

function scan_while ::
  "(int \<Rightarrow> int \<Rightarrow> 's \<Rightarrow> error + 's) \<Rightarrow> double list \<Rightarrow> double list \<Rightarrow> int \<Rightarrow> int \<Rightarrow> int
     \<Rightarrow> int \<Rightarrow> 's \<Rightarrow> error + (int \<times> 's)" where
  "scan_while fold_y x brks last_bin_idx i x_end_idx x_current_idx st =
     (if x_current_idx \<le> x_end_idx
      then (case rd x x_current_idx of Inl e \<Rightarrow> Inl e
            | Inr x_current_value \<Rightarrow>
               (case rd brks i of Inl e \<Rightarrow> Inl e
                | Inr lower \<Rightarrow>
                   if dge x_current_value lower
                   then (case rd brks (i + 1) of Inl e \<Rightarrow> Inl e
                         | Inr upper \<Rightarrow>
                            if dlt x_current_value upper
                               \<or> (deq x_current_value upper \<and> i = last_bin_idx)
                            then (case fold_y i x_current_idx st of Inl e \<Rightarrow> Inl e
                                  | Inr st' \<Rightarrow>
                                     scan_while fold_y x brks last_bin_idx i x_end_idx
                                       (x_current_idx + 1) st')
                            else Inr (x_current_idx, st))
                   else scan_while fold_y x brks last_bin_idx i x_end_idx
                          (x_current_idx + 1) st))
      else Inr (x_current_idx, st))"
  by pat_completeness auto
termination
  by (relation "measure (\<lambda>(fold_y, x, brks, l, i, x_end_idx, x_current_idx, st).
                   nat (x_end_idx + 1 - x_current_idx))") auto

declare scan_while.simps [simp del]

text \<open>The outer \<^verbatim>\<open>for (int i = 0; i < n_bin; i++)\<close>, started with the cursor at
  \<open>x_start_idx\<close>.\<close>

definition scan_bins ::
  "(int \<Rightarrow> 's \<Rightarrow> error + 's) \<Rightarrow> (int \<Rightarrow> int \<Rightarrow> 's \<Rightarrow> error + 's) \<Rightarrow> double list
     \<Rightarrow> double list \<Rightarrow> int \<Rightarrow> int \<Rightarrow> int \<Rightarrow> 's \<Rightarrow> error + (int \<times> 's)" where
  "scan_bins enter fold_y x brks n_bin x_start_idx x_end_idx st =
     (let last_bin_idx = n_bin - 1; x_current_idx = x_start_idx
      in for_loop 0 n_bin
           (\<lambda>i (x_current_idx, st).
              ebind (enter i st)
                (\<lambda>st. scan_while fold_y x brks last_bin_idx i x_end_idx x_current_idx st))
           (x_current_idx, st))"

definition no_enter :: "int \<Rightarrow> 's \<Rightarrow> error + 's" where
  "no_enter i st = Inr st"

text \<open>The innermost statements. A test \<^verbatim>\<open>ISNA(v)\<close> followed by a use of \<open>v\<close> is a case
  distinction on the value. Lines 283-286 (max):\<close>

definition max_fold :: "dbl list \<Rightarrow> int \<Rightarrow> int \<Rightarrow> dbl list \<Rightarrow> error + dbl list" where
  "max_fold y i x_current_idx ans =
     ebind (rd y x_current_idx)
       (\<lambda>yv. case yv of
                None \<Rightarrow> Inr ans
              | Some v \<Rightarrow>
                  ebind (rd ans i)
                    (\<lambda>a. case a of
                           None \<Rightarrow> wr ans i (Some v)
                         | Some u \<Rightarrow> if dgt v u then wr ans i (Some v) else Inr ans))"

text \<open>Lines 323-326 (min):\<close>

definition min_fold :: "dbl list \<Rightarrow> int \<Rightarrow> int \<Rightarrow> dbl list \<Rightarrow> error + dbl list" where
  "min_fold y i x_current_idx ans =
     ebind (rd y x_current_idx)
       (\<lambda>yv. case yv of
                None \<Rightarrow> Inr ans
              | Some v \<Rightarrow>
                  ebind (rd ans i)
                    (\<lambda>a. case a of
                           None \<Rightarrow> wr ans i (Some v)
                         | Some u \<Rightarrow> if dlt v u then wr ans i (Some v) else Inr ans))"

text \<open>Lines 363-369 (sum):\<close>

definition sum_fold :: "dbl list \<Rightarrow> int \<Rightarrow> int \<Rightarrow> dbl list \<Rightarrow> error + dbl list" where
  "sum_fold y i x_current_idx ans =
     ebind (rd y x_current_idx)
       (\<lambda>yv. case yv of
                None \<Rightarrow> Inr ans
              | Some v \<Rightarrow>
                  ebind (rd ans i)
                    (\<lambda>a. case a of
                           None \<Rightarrow> wr ans i (Some v)
                         | Some u \<Rightarrow> wr ans i (Some (dadd u v))))"

text \<open>Lines 409-416 (mean); the state is the result buffer and \<^verbatim>\<open>el_count\<close>.\<close>

definition mean_fold ::
  "dbl list \<Rightarrow> int \<Rightarrow> int \<Rightarrow> dbl list \<times> int list \<Rightarrow> error + dbl list \<times> int list" where
  "mean_fold y i x_current_idx st =
     (case st of (ans, el_count) \<Rightarrow>
        ebind (rd y x_current_idx)
          (\<lambda>yv. case yv of
                   None \<Rightarrow> Inr (ans, el_count)
                 | Some v \<Rightarrow>
                     ebind (rd ans i)
                       (\<lambda>a. ebind (case a of
                                      None \<Rightarrow> wr ans i (Some v)
                                    | Some u \<Rightarrow> wr ans i (Some (dadd u v)))
                          (\<lambda>ans. ebind (rd el_count i)
                             (\<lambda>c. ebind (wr el_count i (c + 1))
                                (\<lambda>el_count. Inr (ans, el_count)))))))"

text \<open>Line 395: \<^verbatim>\<open>el_count[i] = 0\<close>.\<close>

definition mean_enter :: "int \<Rightarrow> dbl list \<times> int list \<Rightarrow> error + dbl list \<times> int list" where
  "mean_enter i st =
     (case st of (ans, el_count) \<Rightarrow>
        ebind (wr el_count i 0) (\<lambda>el_count. Inr (ans, el_count)))"

text \<open>Lines 428-431: the division by the counters. A counter is positive only after a
  value has been stored in its bin (\<open>counted_bin_has_value\<close> below), so that the missing
  value is never divided; the model leaves it missing.\<close>

definition dbl_div_int :: "dbl \<Rightarrow> int \<Rightarrow> dbl" where
  "dbl_div_int a c = (case a of None \<Rightarrow> None | Some u \<Rightarrow> Some (ddiv u (double_of_int c)))"

definition mean_divide :: "int \<Rightarrow> int list \<Rightarrow> dbl list \<Rightarrow> error + dbl list" where
  "mean_divide n_bin el_count ans =
     for_loop 0 n_bin
       (\<lambda>i ans. ebind (rd el_count i)
          (\<lambda>c. if c > 0
                then ebind (rd ans i) (\<lambda>a. wr ans i (dbl_div_int a c))
                else Inr ans))
       ans"

definition bin_y_on_x_with_breaks_max ::
  "double list \<Rightarrow> dbl list \<Rightarrow> double list \<Rightarrow> dbl list \<Rightarrow> int \<Rightarrow> int \<Rightarrow> int \<Rightarrow> error + dbl list" where
  "bin_y_on_x_with_breaks_max x y brks ans n_bin x_start_idx x_end_idx =
     ebind (scan_bins no_enter (max_fold y) x brks n_bin x_start_idx x_end_idx ans)
       (\<lambda>(x_current_idx, ans). Inr ans)"

definition bin_y_on_x_with_breaks_min ::
  "double list \<Rightarrow> dbl list \<Rightarrow> double list \<Rightarrow> dbl list \<Rightarrow> int \<Rightarrow> int \<Rightarrow> int \<Rightarrow> error + dbl list" where
  "bin_y_on_x_with_breaks_min x y brks ans n_bin x_start_idx x_end_idx =
     ebind (scan_bins no_enter (min_fold y) x brks n_bin x_start_idx x_end_idx ans)
       (\<lambda>(x_current_idx, ans). Inr ans)"

definition bin_y_on_x_with_breaks_sum ::
  "double list \<Rightarrow> dbl list \<Rightarrow> double list \<Rightarrow> dbl list \<Rightarrow> int \<Rightarrow> int \<Rightarrow> int \<Rightarrow> error + dbl list" where
  "bin_y_on_x_with_breaks_sum x y brks ans n_bin x_start_idx x_end_idx =
     ebind (scan_bins no_enter (sum_fold y) x brks n_bin x_start_idx x_end_idx ans)
       (\<lambda>(x_current_idx, ans). Inr ans)"

text \<open>The mean declares the variable-length array \<^verbatim>\<open>int el_count[n_bin]\<close>, whose length
  must be positive in C (\<open>Undefined\<close> otherwise). The array is not initialised; line 395
  stores 0 in the cell \<open>i\<close> before the first read of that cell. The model starts the
  array with zeros; \<open>el_count_start_irrelevant\<close> below shows that any other content of
  the same length gives the same result.\<close>

definition bin_y_on_x_with_breaks_mean ::
  "double list \<Rightarrow> dbl list \<Rightarrow> double list \<Rightarrow> dbl list \<Rightarrow> int \<Rightarrow> int \<Rightarrow> int \<Rightarrow> error + dbl list" where
  "bin_y_on_x_with_breaks_mean x y brks ans n_bin x_start_idx x_end_idx =
     (if n_bin \<le> 0 then Inl Undefined
      else
        (let el_count = replicate (nat n_bin) 0
         in ebind (scan_bins mean_enter (mean_fold y) x brks n_bin x_start_idx x_end_idx
                     (ans, el_count))
              (\<lambda>(x_current_idx, (ans, el_count)). mean_divide n_bin el_count ans)))"

text \<open>\<^verbatim>\<open>_bin_midPoint\<close> (lines 438-443).\<close>

definition bin_midPoint :: "double list \<Rightarrow> double list \<Rightarrow> int \<Rightarrow> error + double list" where
  "bin_midPoint brks bin_mids n_bin =
     for_loop 0 n_bin
       (\<lambda>i bin_mids.
          ebind (rd brks i)
            (\<lambda>b0. ebind (rd brks (i + 1))
               (\<lambda>b1. wr bin_mids i (ddiv (dadd b0 b1) (Fin 2)))))
       bin_mids"

subsection \<open>The entry point \<^verbatim>\<open>binYonX\<close>\<close>

text \<open>
  The arguments: \<open>breaks\<close> is \<open>None\<close> when the first element of the vector passed is
  \<^verbatim>\<open>NA\<close> (the caller's way to pass no breaks, tested in lines 65 and 148) and \<open>Some bs\<close>
  for a vector \<open>bs\<close> of boundaries whose first element is not \<^verbatim>\<open>NA\<close>; \<open>nBins\<close> is \<open>None\<close> for
  \<^verbatim>\<open>NA_INTEGER\<close>.

  \<open>binYonX_breaks\<close> is the block "Binning: define breaks" (lines 64-99): it gives
  \<^verbatim>\<open>n_bin\<close> and the buffer \<^verbatim>\<open>p_brks\<close>.
\<close>

definition binYonX_breaks ::
  "double list option \<Rightarrow> int option \<Rightarrow> double \<Rightarrow> double \<Rightarrow> double \<Rightarrow> int
     \<Rightarrow> error + (int \<times> double list)" where
  "binYonX_breaks breaks nBins binSize fromX toX shift_by_half_bin_size =
     (case breaks of
        Some bs \<Rightarrow>
          ebind (rd bs 0)
            (\<lambda>b0. let n_bin = int (length bs) - 1; p_brks = bs
                   in if n_bin < 1 then Inl (InvalidArgument ''Not enough breaks defined!'')
                      else Inr (n_bin, p_brks))
      | None \<Rightarrow>
         (case nBins of
            Some nb \<Rightarrow>
              (let from_x = fromX; to_x = toX; n_bin = nb
               in if n_bin \<le> 0 then Inl (InvalidArgument '''nBins' must be larger 1!'')
                  else ebind (int_add n_bin 1)
                         (\<lambda>len. ebind (allocVector (Fin 0) len)
                            (\<lambda>brks. ebind (breaks_on_nBins_internal from_x to_x n_bin brks
                                             shift_by_half_bin_size)
                               (\<lambda>p_brks. Inr (n_bin, p_brks)))))
          | None \<Rightarrow>
              (let bin_size = binSize;
                   from_x = (if shift_by_half_bin_size > 0
                             then dsub fromX (ddiv bin_size (Fin 2))
                             else fromX);
                   to_x = toX
               in if dlt bin_size (Fin 0) then Inl (InvalidArgument '''binSize' has to be > 0!'')
                  else ebind (int_ceil (ddiv (dsub to_x from_x) bin_size))
                         (\<lambda>n_bin. ebind (int_add n_bin 1)
                            (\<lambda>len. ebind (allocVector (Fin 0) len)
                               (\<lambda>brks. ebind (breaks_on_binSize_internal from_x to_x n_bin
                                                bin_size brks)
                                  (\<lambda>p_brks. Inr (n_bin, p_brks))))))))"

text \<open>The \<^verbatim>\<open>switch (the_method)\<close> of lines 109-125.\<close>

definition binYonX_switch ::
  "int \<Rightarrow> double list \<Rightarrow> dbl list \<Rightarrow> double list \<Rightarrow> dbl list \<Rightarrow> int \<Rightarrow> int \<Rightarrow> int
     \<Rightarrow> error + dbl list" where
  "binYonX_switch the_method x y p_brks p_ans n_bin from_idx to_idx =
     (if the_method = 2
      then bin_y_on_x_with_breaks_min x y p_brks p_ans n_bin from_idx to_idx
      else if the_method = 3
      then bin_y_on_x_with_breaks_sum x y p_brks p_ans n_bin from_idx to_idx
      else if the_method = 4
      then bin_y_on_x_with_breaks_mean x y p_brks p_ans n_bin from_idx to_idx
      else bin_y_on_x_with_breaks_max x y p_brks p_ans n_bin from_idx to_idx)"

text \<open>\<^verbatim>\<open>binYonX\<close> (lines 43-156). The result is the list of the bin mid-points (named
  \<^verbatim>\<open>x\<close> in the list returned to R) and the aggregated values (named \<^verbatim>\<open>y\<close>).\<close>

definition binYonX ::
  "double list \<Rightarrow> dbl list \<Rightarrow> double list option \<Rightarrow> int option \<Rightarrow> double \<Rightarrow> double
     \<Rightarrow> double \<Rightarrow> int \<Rightarrow> int \<Rightarrow> int \<Rightarrow> dbl \<Rightarrow> int \<Rightarrow> error + (double list \<times> dbl list)" where
  "binYonX x y breaks nBins binSize fromX toX fromIdx toIdx shiftByHalfBinSize initValue
     method =
     (let from_idx = fromIdx; to_idx = toIdx; the_method = method; init_value = initValue;
          shift_by_half_bin_size = shiftByHalfBinSize
      in if from_idx < 0 \<or> to_idx < 0
         then Inl (InvalidArgument '''fromIdx' and 'toIdx' have to be >= 0!'')
         else if from_idx > to_idx
         then Inl (InvalidArgument '''fromIdx' has to be smaller than 'toIdx'!'')
         else if to_idx \<ge> int (length x)
         then Inl (InvalidArgument '''toIdx' can not be larger than length(x)!'')
         else
           ebind (binYonX_breaks breaks nBins binSize fromX toX shift_by_half_bin_size)
             (\<lambda>(n_bin, p_brks).
           ebind (allocVector NA_REAL n_bin)
             (\<lambda>ans.
           ebind (for_loop 0 n_bin (\<lambda>i p_ans. wr p_ans i NA_REAL) ans)
             (\<lambda>p_ans.
           ebind (binYonX_switch the_method x y p_brks p_ans n_bin from_idx to_idx)
             (\<lambda>p_ans.
           ebind (if \<not> ISNA init_value
                  then for_loop 0 n_bin
                         (\<lambda>i p_ans. ebind (rd p_ans i)
                            (\<lambda>a. if ISNA a then wr p_ans i init_value else Inr p_ans))
                         p_ans
                  else Inr p_ans)
             (\<lambda>p_ans.
           ebind (allocVector (Fin 0) n_bin)
             (\<lambda>bin_mids.
           ebind (bin_midPoint p_brks bin_mids n_bin)
             (\<lambda>bin_mids. Inr (bin_mids, p_ans)))))))))"

subsection \<open>The assignment of samples to bins\<close>

text \<open>
  Which sample the scan hands to the innermost statement of which bin does not depend
  on the reducer. It is made visible by running the same two loops with statements that
  only record what happens: \<open>Enter i\<close> when the outer loop starts the bin \<open>i\<close>, and
  \<open>Sample i k\<close> when the sample \<open>k\<close> is found to lie in bin \<open>i\<close>. \<open>replay\<close> runs the
  statements of a reducer over such a record.
\<close>

datatype event = Enter int | Sample int int

definition record_enter :: "int \<Rightarrow> event list \<Rightarrow> error + event list" where
  "record_enter i evs = Inr (evs @ [Enter i])"

definition record_sample :: "int \<Rightarrow> int \<Rightarrow> event list \<Rightarrow> error + event list" where
  "record_sample i x_current_idx evs = Inr (evs @ [Sample i x_current_idx])"

definition assignment ::
  "double list \<Rightarrow> double list \<Rightarrow> int \<Rightarrow> int \<Rightarrow> int \<Rightarrow> error + event list" where
  "assignment x brks n_bin x_start_idx x_end_idx =
     ebind (scan_bins record_enter record_sample x brks n_bin x_start_idx x_end_idx [])
       (\<lambda>(x_current_idx, evs). Inr evs)"

fun replay ::
  "(int \<Rightarrow> 's \<Rightarrow> error + 's) \<Rightarrow> (int \<Rightarrow> int \<Rightarrow> 's \<Rightarrow> error + 's) \<Rightarrow> 's \<Rightarrow> event list \<Rightarrow> error + 's" where
  "replay enter fold_y st [] = Inr st"
| "replay enter fold_y st (Enter i # evs) =
     (case enter i st of Inl e \<Rightarrow> Inl e | Inr st' \<Rightarrow> replay enter fold_y st' evs)"
| "replay enter fold_y st (Sample i k # evs) =
     (case fold_y i k st of Inl e \<Rightarrow> Inl e | Inr st' \<Rightarrow> replay enter fold_y st' evs)"

text \<open>The bins as the data model describes them: the bin \<open>i\<close> of \<open>n_bin\<close> bins spans
  \<open>[breaks[i], breaks[i+1])\<close>, except the last bin, which is closed at both ends.
  \<open>in_bin brks n_bin i v\<close> says that the position \<open>v\<close> lies in the bin \<open>i\<close>.\<close>

definition in_bin :: "double list \<Rightarrow> int \<Rightarrow> int \<Rightarrow> double \<Rightarrow> bool" where
  "in_bin brks n_bin i v =
     (0 \<le> i \<and> i < n_bin \<and> dle (brks ! nat i) v
      \<and> (if i = n_bin - 1 then dle v (brks ! nat (i + 1)) else dlt v (brks ! nat (i + 1))))"


subsection \<open>Notions used to state the results\<close>

text \<open>\<open>repeated_add k c step\<close> is the double reached from \<open>c\<close> by \<open>k\<close> successive double
  additions of \<open>step\<close>, each one rounded: the value of \<^verbatim>\<open>current_val\<close> after \<open>k\<close> rounds of
  the loops of lines 219-222 and 237-240. It differs from the double nearest to
  \<open>c + k * step\<close> as soon as one of the additions rounds.\<close>

fun repeated_add :: "nat \<Rightarrow> double \<Rightarrow> double \<Rightarrow> double" where
  "repeated_add 0 c step = c"
| "repeated_add (Suc k) c step = dadd (repeated_add k c step) step"

text \<open>The step and the first boundary of \<^verbatim>\<open>_breaks_on_nBins\<close> (lines 214-217).\<close>

definition nBins_step :: "double \<Rightarrow> double \<Rightarrow> int \<Rightarrow> int \<Rightarrow> double" where
  "nBins_step from_val to_val n_bin s =
     ddiv (dsub to_val from_val) (dsub (double_of_int n_bin) (double_of_int s))"

definition nBins_start :: "double \<Rightarrow> double \<Rightarrow> int \<Rightarrow> int \<Rightarrow> double" where
  "nBins_start from_val to_val n_bin s =
     (if s > 0 then dsub from_val (ddiv (nBins_step from_val to_val n_bin s) (Fin 2))
      else from_val)"

text \<open>The indices of the samples handed to a bin, in the order of the scan.\<close>

fun samples :: "event list \<Rightarrow> int list" where
  "samples [] = []"
| "samples (Enter i # evs) = samples evs"
| "samples (Sample i k # evs) = k # samples evs"

text \<open>The elements \<open>s\<close> to \<open>e\<close> of an array are in ascending order (and none of them is
  not a number): what the contract asks of the window of \<^verbatim>\<open>x\<close> and of the breaks.\<close>

definition ascending :: "double list \<Rightarrow> int \<Rightarrow> int \<Rightarrow> bool" where
  "ascending v s e = (\<forall>m \<in> set [s..e]. \<forall>m' \<in> set [m..e]. dle (v ! nat m) (v ! nat m'))"

text \<open>The calls of \<^verbatim>\<open>binYonX\<close> that pass each of its validations and in which every
  operation is defined in C: the index window is valid for \<open>x\<close> and reaches no further than
  \<open>y\<close> does; there are at least two explicit breaks, or a positive number of bins below the
  largest \<^verbatim>\<open>int\<close> (so that \<^verbatim>\<open>n_bin + 1\<close> exists), or a bin size that is not negative for
  which the quotient of line 95 is a number whose ceiling is such an \<^verbatim>\<open>int\<close>, not 0 if the
  mean is asked for (its array \<^verbatim>\<open>el_count\<close> cannot have the length 0).\<close>

definition valid_call ::
  "double list \<Rightarrow> dbl list \<Rightarrow> double list option \<Rightarrow> int option \<Rightarrow> double \<Rightarrow> double \<Rightarrow> double
     \<Rightarrow> int \<Rightarrow> int \<Rightarrow> int \<Rightarrow> int \<Rightarrow> bool" where
  "valid_call x y breaks nBins binSize fromX toX fromIdx toIdx shiftByHalfBinSize method =
     (0 \<le> fromIdx \<and> fromIdx \<le> toIdx \<and> toIdx < int (length x) \<and> toIdx < int (length y)
      \<and> (case breaks of
            Some bs \<Rightarrow> 2 \<le> length bs
          | None \<Rightarrow>
             (case nBins of
                Some nb \<Rightarrow> 0 < nb \<and> nb < 2147483647
              | None \<Rightarrow>
                  \<not> dlt binSize (Fin 0)
                  \<and> (case ddiv (dsub toX (if shiftByHalfBinSize > 0
                                           then dsub fromX (ddiv binSize (Fin 2))
                                           else fromX)) binSize of
                        Fin q \<Rightarrow> 0 \<le> \<lceil>q\<rceil> \<and> \<lceil>q\<rceil> < 2147483647 \<and> (method = 4 \<longrightarrow> 0 < \<lceil>q\<rceil>)
                      | PInf \<Rightarrow> False | MInf \<Rightarrow> False | NaN \<Rightarrow> False))))"

section \<open>Auxiliary facts\<close>

subsection \<open>Sequencing, arrays and loops\<close>

lemma ebind_Inr [simp]: "ebind (Inr v) f = f v"
  by (simp add: ebind_def)

lemma ebind_Inl [simp]: "ebind (Inl e) f = Inl e"
  by (simp add: ebind_def)

lemma ebind_eq_Inr: "ebind m f = Inr r \<longleftrightarrow> (\<exists>v. m = Inr v \<and> f v = Inr r)"
  by (cases m) simp_all

lemma for_loop_done: "n \<le> i \<Longrightarrow> for_loop i n body s = Inr s"
  by (subst for_loop.simps) simp

lemma for_loop_step: "i < n \<Longrightarrow> for_loop i n body s = ebind (body i s) (for_loop (i + 1) n body)"
  by (subst for_loop.simps) (simp add: ebind_def)

lemma for_loop_invariant:
  assumes "for_loop i n body s = Inr t" and "P i s" and "i \<le> n"
    and "\<And>j u v. i \<le> j \<Longrightarrow> j < n \<Longrightarrow> P j u \<Longrightarrow> body j u = Inr v \<Longrightarrow> P (j + 1) v"
  shows "P n t"
  using assms
proof (induction i n body s rule: for_loop.induct)
  case (1 i n body s)
  show ?case
  proof (cases "i < n")
    case False
    with "1.prems" show ?thesis by (simp add: for_loop_done)
  next
    case True
    with "1.prems"(1) obtain s' where b: "body i s = Inr s'" and r: "for_loop (i + 1) n body s' = Inr t"
      by (auto simp: for_loop_step ebind_eq_Inr)
    have "P (i + 1) s'" using "1.prems"(4)[OF _ True "1.prems"(2) b] by simp
    moreover have "\<And>j u v. i + 1 \<le> j \<Longrightarrow> j < n \<Longrightarrow> P j u \<Longrightarrow> body j u = Inr v \<Longrightarrow> P (j + 1) v"
      using "1.prems"(4) by simp
    ultimately show ?thesis
      using "1.IH"[OF True b r] True by simp
  qed
qed

lemma for_loop_total:
  assumes "P i s" and "i \<le> n"
    and "\<And>j u. i \<le> j \<Longrightarrow> j < n \<Longrightarrow> P j u \<Longrightarrow> \<exists>v. body j u = Inr v \<and> P (j + 1) v"
  shows "\<exists>t. for_loop i n body s = Inr t \<and> P n t"
  using assms
proof (induction i n body s rule: for_loop.induct)
  case (1 i n body s)
  show ?case
  proof (cases "i < n")
    case False
    with "1.prems" show ?thesis by (simp add: for_loop_done)
  next
    case True
    from "1.prems"(3)[OF _ True "1.prems"(1)] obtain s' where b: "body i s = Inr s'" and p: "P (i + 1) s'"
      by auto
    have "\<And>j u. i + 1 \<le> j \<Longrightarrow> j < n \<Longrightarrow> P j u \<Longrightarrow> \<exists>v. body j u = Inr v \<and> P (j + 1) v"
      using "1.prems"(3) by simp
    with "1.IH"[OF True b p] True obtain t where "for_loop (i + 1) n body s' = Inr t \<and> P n t"
      by auto
    then show ?thesis using True b by (auto simp: for_loop_step)
  qed
qed

lemma wr_Inr: "0 \<le> i \<Longrightarrow> i < int (length xs) \<Longrightarrow> wr xs i v = Inr (xs[nat i := v])"
  by (simp add: wr_def)

lemma rd_Inr: "0 \<le> i \<Longrightarrow> i < int (length xs) \<Longrightarrow> rd xs i = Inr (xs ! nat i)"
  by (simp add: rd_def)

lemma wr_eq_Inr: "wr xs i v = Inr ys \<longleftrightarrow> 0 \<le> i \<and> i < int (length xs) \<and> ys = xs[nat i := v]"
  by (auto simp: wr_def)

lemma rd_eq_Inr: "rd xs i = Inr a \<longleftrightarrow> 0 \<le> i \<and> i < int (length xs) \<and> a = xs ! nat i"
  by (auto simp: rd_def)

lemma fill_loop:
  assumes "0 \<le> n" and "n \<le> int (length brks)"
  shows "\<exists>out. for_loop 0 n (\<lambda>i (b, c). ebind (wr b i c) (\<lambda>b. Inr (b, dadd c step))) (brks, c0)
                 = Inr (out, repeated_add (nat n) c0 step)
               \<and> length out = length brks
               \<and> (\<forall>k. 0 \<le> k \<and> k < n \<longrightarrow> out ! nat k = repeated_add (nat k) c0 step)
               \<and> (\<forall>k. n \<le> k \<longrightarrow> out ! nat k = brks ! nat k)"
proof -
  let ?P = "\<lambda>j (bc :: double list \<times> double). length (fst bc) = length brks
              \<and> snd bc = repeated_add (nat j) c0 step
              \<and> (\<forall>k. 0 \<le> k \<and> k < j \<longrightarrow> fst bc ! nat k = repeated_add (nat k) c0 step)
              \<and> (\<forall>k. j \<le> k \<longrightarrow> fst bc ! nat k = brks ! nat k)"
  have "\<exists>t. for_loop 0 n (\<lambda>i (b, c). ebind (wr b i c) (\<lambda>b. Inr (b, dadd c step))) (brks, c0) = Inr t
          \<and> ?P n t"
  proof (rule for_loop_total[where P = ?P])
    show "?P 0 (brks, c0)" by auto
    show "0 \<le> n" by fact
  next
    fix j :: int and u :: "double list \<times> double"
    assume j: "0 \<le> j" "j < n" and p: "?P j u"
    obtain b c where u: "u = (b, c)" by (cases u)
    have w: "wr b j c = Inr (b[nat j := c])"
      using j p assms u by (simp add: wr_Inr)
    have s: "nat (j + 1) = Suc (nat j)" using j by simp
    have "\<forall>k. 0 \<le> k \<and> k < j + 1 \<longrightarrow> (b[nat j := c]) ! nat k = repeated_add (nat k) c0 step"
    proof (intro allI impI)
      fix k :: int assume k: "0 \<le> k \<and> k < j + 1"
      show "(b[nat j := c]) ! nat k = repeated_add (nat k) c0 step"
      proof (cases "k = j")
        case True
        then show ?thesis using j p assms u by simp
      next
        case False
        then have "nat k \<noteq> nat j" "k < j" using k j by auto
        then show ?thesis using k p u by simp
      qed
    qed
    moreover have "\<forall>k. j + 1 \<le> k \<longrightarrow> (b[nat j := c]) ! nat k = brks ! nat k"
    proof (intro allI impI)
      fix k :: int assume k: "j + 1 \<le> k"
      then have "nat k \<noteq> nat j" "j \<le> k" using j by auto
      then show "(b[nat j := c]) ! nat k = brks ! nat k" using p u by simp
    qed
    ultimately show "\<exists>v. (case u of (b, c) \<Rightarrow> ebind (wr b j c) (\<lambda>b. Inr (b, dadd c step))) = Inr v \<and> ?P (j + 1) v"
      using w p u s by simp
  qed
  then show ?thesis by (auto simp: prod_eq_iff)
qed

subsection \<open>The order of the doubles\<close>

lemma dlt_irrefl: "\<not> dlt a a"
  by (cases a) (simp_all add: dlt_def)

lemma dlt_asym: "dlt a b \<Longrightarrow> \<not> dlt b a"
  by (cases a; cases b) (simp_all add: dlt_def)

lemma dlt_trans: "dlt a b \<Longrightarrow> dlt b c \<Longrightarrow> dlt a c"
  by (cases a; cases b; cases c) (simp_all add: dlt_def)

lemma dlt_not_deq: "dlt a b \<Longrightarrow> \<not> deq a b \<and> \<not> deq b a"
  by (cases a; cases b) (simp_all add: dlt_def deq_def)

lemma dlt_not_dge: "dlt a b \<Longrightarrow> \<not> dge a b"
  using dlt_asym[of a b] dlt_not_deq[of a b] by (simp add: dge_def dle_def)

lemma dle_dlt_trans: "dle a b \<Longrightarrow> dlt b c \<Longrightarrow> dlt a c"
  by (auto simp: dle_def deq_def intro: dlt_trans)

lemma dlt_dle_trans: "dlt a b \<Longrightarrow> dle b c \<Longrightarrow> dlt a c"
  by (auto simp: dle_def deq_def intro: dlt_trans)

lemma dle_trans: "dle a b \<Longrightarrow> dle b c \<Longrightarrow> dle a c"
  by (auto simp: dle_def deq_def intro: dlt_trans)

lemma dle_not_dlt: "dle a b \<Longrightarrow> \<not> dlt b a"
  using dlt_not_dge[of b a] by (auto simp: dge_def)

lemma dle_not_NaN: "dle a b \<Longrightarrow> a \<noteq> NaN \<and> b \<noteq> NaN"
  by (cases a; cases b) (simp_all add: dle_def dlt_def deq_def)

lemma dlt_total: "a \<noteq> NaN \<Longrightarrow> b \<noteq> NaN \<Longrightarrow> dlt a b \<or> a = b \<or> dlt b a"
  by (cases a; cases b) (auto simp: dlt_def)

lemma not_dge_dlt: "a \<noteq> NaN \<Longrightarrow> b \<noteq> NaN \<Longrightarrow> \<not> dge a b \<Longrightarrow> dlt a b"
  using dlt_total[of a b] by (auto simp: dge_def dle_def deq_def)

lemma dle_refl: "a \<noteq> NaN \<Longrightarrow> dle a a"
  by (simp add: dle_def deq_def)

lemma dlt_Fin [simp]: "dlt (Fin u) (Fin v) \<longleftrightarrow> u < v"
  by (simp add: dlt_def)

lemma dle_Fin [simp]: "dle (Fin u) (Fin v) \<longleftrightarrow> u \<le> v"
  by (auto simp: dle_def deq_def)

lemma deq_Fin [simp]: "deq (Fin u) (Fin v) \<longleftrightarrow> u = v"
  by (simp add: deq_def)

subsection \<open>Integers are doubles\<close>

lemma bit_length_le: "n < 2 ^ k \<Longrightarrow> bit_length n \<le> int k"
proof (induction k arbitrary: n)
  case 0
  then show ?case by (subst bit_length.simps) simp
next
  case (Suc k)
  show ?case
  proof (cases "n \<le> 0")
    case True
    then show ?thesis by (subst bit_length.simps) simp
  next
    case False
    from Suc.prems have "n div 2 < 2 ^ k" by simp
    from Suc.IH[OF this] False show ?thesis by (subst bit_length.simps) simp
  qed
qed

lemma round_half_even_int: "round_half_even (real_of_int t) = t"
  by (simp add: round_half_even_def)

lemma rnd_int:
  assumes "0 < n" and "n < 2 ^ 53"
  shows "rnd (real_of_int n) = Fin (real_of_int n)"
proof -
  let ?e = "max (exponent_of \<bar>real_of_int n\<bar>) (- 1022)"
  have a: "\<bar>real_of_int n\<bar> = real_of_int n" using assms by simp
  have "exponent_of (real_of_int n) = bit_length n - 1"
    using assms by (simp add: exponent_of_def)
  moreover have "bit_length n \<le> 53" using bit_length_le[OF assms(2)] by simp
  ultimately have e: "?e \<le> 52" "?e < 1023" using a by simp_all
  define k where "k = nat (52 - ?e)"
  have q: "pow2 (?e - 52) = 1 / 2 ^ k"
  proof (cases "?e = 52")
    case True
    then show ?thesis by (simp add: pow2_def k_def)
  next
    case False
    with e have "?e - 52 < 0" by simp
    then show ?thesis unfolding pow2_def k_def by (simp add: algebra_simps)
  qed
  have "real_of_int n / (1 / 2 ^ k) = real_of_int (n * 2 ^ k)" by simp
  then have r: "round_half_even (real_of_int n / (1 / 2 ^ k)) = n * 2 ^ k"
    by (simp only: round_half_even_int)
  have "real_of_int (n * 2 ^ k) * (1 / 2 ^ k) = real_of_int n" by simp
  with assms e q r a show ?thesis
    unfolding rnd_def Let_def by simp
qed

lemma dsub_int_zero:
  assumes "0 < n" and "n < 2147483647"
  shows "dsub (double_of_int n) (double_of_int 0) = double_of_int n"
proof -
  have "n < 2 ^ 53" using assms by simp
  from rnd_int[OF assms(1) this] show ?thesis
    by (simp add: dsub_def dadd_def dneg_def double_of_int_def)
qed

subsection \<open>The two loops that fill the breaks\<close>

lemma allocVector_Inr: "0 \<le> n \<Longrightarrow> allocVector fill n = Inr (replicate (nat n) fill)"
  by (simp add: allocVector_def)

lemma breaks_on_nBins_internal_result:
  assumes "0 \<le> n_bin" and "int (length brks) = n_bin + 1"
  shows "breaks_on_nBins_internal from_val to_val n_bin brks s
         = Inr (map (\<lambda>k. repeated_add k (nBins_start from_val to_val n_bin s)
                          (nBins_step from_val to_val n_bin s))
                  [0..<nat n_bin + 1])"
proof -
  let ?step = "nBins_step from_val to_val n_bin s"
  let ?c0 = "nBins_start from_val to_val n_bin s"
  from fill_loop[of "n_bin + 1" brks ?step ?c0] assms
  obtain out where
    run: "for_loop 0 (n_bin + 1) (\<lambda>i (b, c). ebind (wr b i c) (\<lambda>b. Inr (b, dadd c ?step)))
            (brks, ?c0) = Inr (out, repeated_add (nat (n_bin + 1)) ?c0 ?step)"
    and len: "length out = length brks"
    and nth: "\<forall>k. 0 \<le> k \<and> k < n_bin + 1 \<longrightarrow> out ! nat k = repeated_add (nat k) ?c0 ?step"
    by auto
  have "out = map (\<lambda>k. repeated_add k ?c0 ?step) [0..<nat n_bin + 1]"
  proof (rule nth_equalityI)
    show "length out = length (map (\<lambda>k. repeated_add k ?c0 ?step) [0..<nat n_bin + 1])"
      using len assms by simp
  next
    fix i assume "i < length out"
    then have i: "int i < n_bin + 1" using len assms by simp
    then have "out ! nat (int i) = repeated_add (nat (int i)) ?c0 ?step"
      using nth[rule_format, of "int i"] by simp
    moreover have "i < nat n_bin + 1" using i by simp
    ultimately show "out ! i = map (\<lambda>k. repeated_add k ?c0 ?step) [0..<nat n_bin + 1] ! i"
      by (simp del: upt_Suc)
  qed
  moreover have "breaks_on_nBins_internal from_val to_val n_bin brks s
      = ebind (for_loop 0 (n_bin + 1) (\<lambda>i (b, c). ebind (wr b i c) (\<lambda>b. Inr (b, dadd c ?step)))
                 (brks, ?c0))
          (\<lambda>(b, c). Inr b)"
    by (simp add: breaks_on_nBins_internal_def nBins_step_def nBins_start_def Let_def)
  ultimately show ?thesis
    using run by (simp only: ebind_Inr prod.case)
qed

lemma breaks_on_binSize_internal_result:
  assumes "0 \<le> n_bin" and "int (length brks) = n_bin + 1"
  shows "breaks_on_binSize_internal from_val to_val n_bin bin_size brks
         = Inr (map (\<lambda>k. repeated_add k from_val bin_size) [0..<nat n_bin] @ [to_val])"
proof -
  from fill_loop[of n_bin brks bin_size from_val] assms
  obtain out where
    run: "for_loop 0 n_bin (\<lambda>i (b, c). ebind (wr b i c) (\<lambda>b. Inr (b, dadd c bin_size)))
            (brks, from_val) = Inr (out, repeated_add (nat n_bin) from_val bin_size)"
    and len: "length out = length brks"
    and nth: "\<forall>k. 0 \<le> k \<and> k < n_bin \<longrightarrow> out ! nat k = repeated_add (nat k) from_val bin_size"
    by auto
  let ?res = "map (\<lambda>k. repeated_add k from_val bin_size) [0..<nat n_bin] @ [to_val]"
  have "out[nat n_bin := to_val] = ?res"
  proof (rule nth_equalityI)
    show "length (out[nat n_bin := to_val]) = length ?res"
      using len assms by simp
  next
    fix i assume "i < length (out[nat n_bin := to_val])"
    then have i: "int i < n_bin + 1" using len assms by simp
    show "out[nat n_bin := to_val] ! i = ?res ! i"
    proof (cases "i = nat n_bin")
      case True
      then show ?thesis using len assms by (simp add: nth_append)
    next
      case False
      then have lt: "i < nat n_bin" using i by linarith
      then have "out ! nat (int i) = repeated_add (nat (int i)) from_val bin_size"
        using nth[rule_format, of "int i"] by simp
      then show ?thesis using False lt by (simp add: nth_append)
    qed
  qed
  moreover have "wr out n_bin to_val = Inr (out[nat n_bin := to_val])"
    using len assms by (simp add: wr_Inr)
  ultimately show ?thesis
    using run by (simp add: breaks_on_binSize_internal_def)
qed

subsection \<open>Which errors can come from where\<close>

lemma ebind_eq_Inl: "ebind m f = Inl e \<longleftrightarrow> m = Inl e \<or> (\<exists>v. m = Inr v \<and> f v = Inl e)"
  by (cases m) simp_all

lemma rd_Inl: "rd xs i = Inl e \<Longrightarrow> e = Undefined"
  by (simp add: rd_def split: if_splits)

lemma wr_Inl: "wr xs i v = Inl e \<Longrightarrow> e = Undefined"
  by (simp add: wr_def split: if_splits)

lemma for_loop_error:
  assumes "for_loop i n body s = Inl e"
  obtains j u where "body j u = Inl e"
  using assms
proof (induction i n body s arbitrary: thesis rule: for_loop.induct)
  case (1 i n body s)
  show ?case
  proof (cases "i < n")
    case False
    with "1.prems" show ?thesis by (simp add: for_loop_done)
  next
    case True
    show ?thesis
    proof (cases "body i s")
      case (Inl e')
      with True "1.prems" show ?thesis by (simp add: for_loop_step)
    next
      case (Inr s')
      with True "1.prems"(2) have "for_loop (i + 1) n body s' = Inl e"
        by (simp add: for_loop_step)
      from "1.IH"[OF True Inr _ this] "1.prems"(1) show ?thesis by blast
    qed
  qed
qed

lemma scan_while_error:
  assumes "scan_while fold_y x brks l i x_end_idx k st = Inl e"
  shows "e = Undefined \<or> (\<exists>i k st. fold_y i k st = Inl e)"
  using assms
proof (induction fold_y x brks l i x_end_idx k st rule: scan_while.induct)
  case (1 fold_y x brks l i x_end_idx k st)
  show ?case
    using "1.IH" "1.prems"[unfolded scan_while.simps[of fold_y x brks l i x_end_idx k st]]
    by (auto split: if_splits sum.splits dest: rd_Inl)
qed


lemma scan_bins_error:
  assumes "scan_bins enter fold_y x brks n_bin x_start_idx x_end_idx st = Inl e"
  shows "e = Undefined \<or> (\<exists>i st. enter i st = Inl e) \<or> (\<exists>i k st. fold_y i k st = Inl e)"
proof -
  from assms obtain j u where
    "(case u of (x_current_idx, st) \<Rightarrow>
        ebind (enter j st)
          (\<lambda>st. scan_while fold_y x brks (n_bin - 1) j x_end_idx x_current_idx st)) = Inl e"
    unfolding scan_bins_def Let_def by (rule for_loop_error)
  then show ?thesis
    by (cases u) (auto simp: ebind_eq_Inl dest: scan_while_error)
qed

lemma max_fold_Inl: "max_fold y i k ans = Inl e \<Longrightarrow> e = Undefined"
  by (auto simp: max_fold_def ebind_eq_Inl split: if_splits option.splits dest: rd_Inl wr_Inl)

lemma min_fold_Inl: "min_fold y i k ans = Inl e \<Longrightarrow> e = Undefined"
  by (auto simp: min_fold_def ebind_eq_Inl split: if_splits option.splits dest: rd_Inl wr_Inl)

lemma sum_fold_Inl: "sum_fold y i k ans = Inl e \<Longrightarrow> e = Undefined"
  by (auto simp: sum_fold_def ebind_eq_Inl split: if_splits option.splits dest: rd_Inl wr_Inl)

lemma mean_fold_Inl: "mean_fold y i k st = Inl e \<Longrightarrow> e = Undefined"
  by (cases st) (auto simp: mean_fold_def ebind_eq_Inl split: if_splits option.splits dest: rd_Inl wr_Inl)

lemma mean_enter_Inl: "mean_enter i st = Inl e \<Longrightarrow> e = Undefined"
  by (cases st) (auto simp: mean_enter_def ebind_eq_Inl dest: wr_Inl)

lemma mean_divide_Inl: "mean_divide n_bin el_count ans = Inl e \<Longrightarrow> e = Undefined"
  unfolding mean_divide_def
  by (erule for_loop_error) (auto simp: ebind_eq_Inl split: if_splits dest: rd_Inl wr_Inl)

lemma binYonX_switch_Inl:
  assumes "binYonX_switch the_method x y p_brks p_ans n_bin from_idx to_idx = Inl e"
  shows "e = Undefined"
proof -
  have a: "e = Undefined"
    if "scan_bins no_enter (f y) x p_brks n_bin from_idx to_idx p_ans = Inl e"
      and "\<And>i k st. f y i k st = Inl e \<Longrightarrow> e = Undefined" for f
    using scan_bins_error[OF that(1)] that(2) by (auto simp: no_enter_def)
  have b: "e = Undefined"
    if "scan_bins mean_enter (mean_fold y) x p_brks n_bin from_idx to_idx st = Inl e" for st
    using scan_bins_error[OF that] by (auto dest: mean_fold_Inl mean_enter_Inl)
  from assms show ?thesis
    by (auto simp: binYonX_switch_def bin_y_on_x_with_breaks_max_def
        bin_y_on_x_with_breaks_min_def bin_y_on_x_with_breaks_sum_def
        bin_y_on_x_with_breaks_mean_def ebind_eq_Inl Let_def
        split: if_splits
        dest: a[of max_fold, OF _ max_fold_Inl] a[of min_fold, OF _ min_fold_Inl]
          a[of sum_fold, OF _ sum_fold_Inl] b mean_divide_Inl)
qed

lemma allocVector_Inl: "allocVector fill n = Inl e \<Longrightarrow> e = NegativeLength"
  by (simp add: allocVector_def split: if_splits)

lemma bin_midPoint_Inl: "bin_midPoint brks bin_mids n_bin = Inl e \<Longrightarrow> e = Undefined"
  unfolding bin_midPoint_def
  by (erule for_loop_error) (auto simp: ebind_eq_Inl dest: rd_Inl wr_Inl)

lemma fill_body_Inl:
  "(case u of (b, c) \<Rightarrow> ebind (wr b j c) (\<lambda>b. Inr (b, dadd c step))) = Inl e \<Longrightarrow> e = Undefined"
  by (cases u) (auto simp: ebind_eq_Inl dest: wr_Inl)

lemma breaks_on_nBins_internal_Inl:
  "breaks_on_nBins_internal from_val to_val n_bin brks s = Inl e \<Longrightarrow> e = Undefined"
  unfolding breaks_on_nBins_internal_def Let_def
  by (auto simp: ebind_eq_Inl split: if_splits elim!: for_loop_error dest: fill_body_Inl wr_Inl)

lemma breaks_on_binSize_internal_Inl:
  "breaks_on_binSize_internal from_val to_val n_bin bin_size brks = Inl e \<Longrightarrow> e = Undefined"
  unfolding breaks_on_binSize_internal_def
  by (auto simp: ebind_eq_Inl elim!: for_loop_error dest: fill_body_Inl wr_Inl)

lemma int_ceil_Inl: "int_ceil d = Inl e \<Longrightarrow> e = Undefined"
  by (simp add: int_ceil_def Let_def split: if_splits double.splits)

lemma int_add_Inl: "int_add a b = Inl e \<Longrightarrow> e = Undefined"
  by (simp add: int_add_def split: if_splits)

lemma binYonX_breaks_Inl:
  assumes "binYonX_breaks breaks nBins binSize fromX toX s = Inl e"
  shows "e \<in> {Undefined, NegativeLength,
               InvalidArgument ''Not enough breaks defined!'',
               InvalidArgument '''nBins' must be larger 1!'',
               InvalidArgument '''binSize' has to be > 0!''}"
  using assms unfolding binYonX_breaks_def Let_def
  by (auto simp: ebind_eq_Inl split: option.splits if_splits
      dest: rd_Inl allocVector_Inl breaks_on_nBins_internal_Inl
        breaks_on_binSize_internal_Inl int_ceil_Inl int_add_Inl)

lemma binYonX_later_errors:
  assumes "\<not> (fromIdx < 0 \<or> toIdx < 0)" and "\<not> fromIdx > toIdx"
    and "\<not> toIdx \<ge> int (length x)"
    and "binYonX x y breaks nBins binSize fromX toX fromIdx toIdx s initValue method = Inl e"
  shows "e \<in> {Undefined, NegativeLength,
               InvalidArgument ''Not enough breaks defined!'',
               InvalidArgument '''nBins' must be larger 1!'',
               InvalidArgument '''binSize' has to be > 0!''}"
proof -
  have fl: "e = Undefined" if "for_loop 0 n (\<lambda>i p_ans. wr p_ans i v) a = Inl e"
    for n v and a :: "dbl list"
    using that by (auto elim!: for_loop_error dest: wr_Inl)
  have fl2: "e = Undefined"
    if "for_loop 0 n (\<lambda>i p_ans. ebind (rd p_ans i)
                       (\<lambda>a. if ISNA a then wr p_ans i v else Inr p_ans)) a = Inl e"
    for n v and a :: "dbl list"
    using that
    by (auto simp: ebind_eq_Inl split: if_splits elim!: for_loop_error dest: rd_Inl wr_Inl)
  from assms(4) have
    "ebind (binYonX_breaks breaks nBins binSize fromX toX s)
             (\<lambda>(n_bin, p_brks).
           ebind (allocVector NA_REAL n_bin)
             (\<lambda>ans.
           ebind (for_loop 0 n_bin (\<lambda>i p_ans. wr p_ans i NA_REAL) ans)
             (\<lambda>p_ans.
           ebind (binYonX_switch method x y p_brks p_ans n_bin fromIdx toIdx)
             (\<lambda>p_ans.
           ebind (if \<not> ISNA initValue
                  then for_loop 0 n_bin
                         (\<lambda>i p_ans. ebind (rd p_ans i)
                            (\<lambda>a. if ISNA a then wr p_ans i initValue else Inr p_ans))
                         p_ans
                  else Inr p_ans)
             (\<lambda>p_ans.
           ebind (allocVector (Fin 0) n_bin)
             (\<lambda>bin_mids.
           ebind (bin_midPoint p_brks bin_mids n_bin)
             (\<lambda>bin_mids. Inr (bin_mids, p_ans)))))))) = Inl e"
    using assms(1-3) by (simp add: binYonX_def)
  then show ?thesis
    by (auto simp: ebind_eq_Inl split: if_splits
        dest!: binYonX_breaks_Inl allocVector_Inl fl fl2 binYonX_switch_Inl bin_midPoint_Inl)
qed

subsection \<open>Lengths of the buffers\<close>

lemma for_loop_preserves:
  assumes "for_loop i n body s = Inr t" and "Q s"
    and "\<And>j u v. Q u \<Longrightarrow> body j u = Inr v \<Longrightarrow> Q v"
  shows "Q t"
  using assms
proof (induction i n body s rule: for_loop.induct)
  case (1 i n body s)
  show ?case
  proof (cases "i < n")
    case False
    with "1.prems" show ?thesis by (simp add: for_loop_done)
  next
    case True
    with "1.prems"(1) obtain s' where b: "body i s = Inr s'"
      and r: "for_loop (i + 1) n body s' = Inr t"
      by (auto simp: for_loop_step ebind_eq_Inr)
    from "1.prems"(3)[OF "1.prems"(2) b] have "Q s'" .
    from "1.IH"[OF True b r this "1.prems"(3)] show ?thesis by simp
  qed
qed

lemma scan_while_preserves:
  assumes "scan_while fold_y x brks l i x_end_idx k st = Inr (k', st')" and "Q st"
    and "\<And>i k u v. Q u \<Longrightarrow> fold_y i k u = Inr v \<Longrightarrow> Q v"
  shows "Q st'"
  using assms
proof (induction fold_y x brks l i x_end_idx k st rule: scan_while.induct)
  case (1 fold_y x brks l i x_end_idx k st)
  show ?case
    using "1.IH" "1.prems"(2,3)
      "1.prems"(1)[unfolded scan_while.simps[of fold_y x brks l i x_end_idx k st]]
    by (auto split: if_splits sum.splits)
qed

lemma scan_bins_preserves:
  assumes "scan_bins enter fold_y x brks n_bin x_start_idx x_end_idx (st :: 's) = Inr (k', st')"
    and "Q st"
    and "\<And>i u v. Q u \<Longrightarrow> enter i u = Inr v \<Longrightarrow> Q v"
    and "\<And>i k u v. Q u \<Longrightarrow> fold_y i k u = Inr v \<Longrightarrow> Q v"
  shows "Q st'"
proof -
  have "Q (snd (k', st'))"
  proof (rule for_loop_preserves[where Q = "\<lambda>p. Q (snd p)",
        OF assms(1)[unfolded scan_bins_def Let_def]])
    show "Q (snd (x_start_idx, st))" using assms(2) by simp
  next
    fix j :: int and u v :: "int \<times> 's"
    assume q: "Q (snd u)"
      and b: "(case u of (x_current_idx, st) \<Rightarrow>
                 ebind (enter j st)
                   (\<lambda>st. scan_while fold_y x brks (n_bin - 1) j x_end_idx x_current_idx st))
              = Inr v"
    obtain c s where u: "u = (c, s)" by (cases u)
    obtain c' s' where v: "v = (c', s')" by (cases v)
    from b u v obtain s1 where e: "enter j s = Inr s1"
      and w: "scan_while fold_y x brks (n_bin - 1) j x_end_idx c s1 = Inr (c', s')"
      by (auto simp: ebind_eq_Inr)
    from assms(3)[OF _ e] q u have "Q s1" by simp
    from scan_while_preserves[where Q = Q, OF w this assms(4)] v show "Q (snd v)" by simp
  qed
  then show ?thesis by simp
qed

lemma max_fold_length: "max_fold y i k ans = Inr ans' \<Longrightarrow> length ans' = length ans"
  by (auto simp: max_fold_def ebind_def wr_eq_Inr split: sum.splits option.splits if_splits)

lemma min_fold_length: "min_fold y i k ans = Inr ans' \<Longrightarrow> length ans' = length ans"
  by (auto simp: min_fold_def ebind_def wr_eq_Inr split: sum.splits option.splits if_splits)

lemma sum_fold_length: "sum_fold y i k ans = Inr ans' \<Longrightarrow> length ans' = length ans"
  by (auto simp: sum_fold_def ebind_def wr_eq_Inr split: sum.splits option.splits if_splits)

lemma mean_fold_length:
  "mean_fold y i k (ans, el) = Inr (ans', el')
    \<Longrightarrow> length ans' = length ans \<and> length el' = length el"
  by (auto simp: mean_fold_def ebind_def wr_eq_Inr split: sum.splits option.splits if_splits)

lemma mean_enter_length:
  "mean_enter i (ans, el) = Inr (ans', el') \<Longrightarrow> ans' = ans \<and> length el' = length el"
  by (auto simp: mean_enter_def ebind_eq_Inr wr_eq_Inr)

lemma mean_divide_length:
  assumes "mean_divide n_bin el_count ans = Inr ans'"
  shows "length ans' = length ans"
  by (rule for_loop_preserves[where Q = "\<lambda>a. length a = length ans",
        OF assms[unfolded mean_divide_def]])
     (auto simp: ebind_eq_Inr wr_eq_Inr split: if_splits)


lemma bin_max_length:
  assumes "bin_y_on_x_with_breaks_max x y brks ans n_bin s e = Inr ans'"
  shows "length ans' = length ans"
proof -
  from assms obtain k' where
    r: "scan_bins no_enter (max_fold y) x brks n_bin s e ans = Inr (k', ans')"
    by (auto simp: bin_y_on_x_with_breaks_max_def ebind_eq_Inr)
  show ?thesis
    by (rule scan_bins_preserves[where Q = "\<lambda>a. length a = length ans", OF r])
       (auto simp: no_enter_def dest: max_fold_length)
qed

lemma bin_min_length:
  assumes "bin_y_on_x_with_breaks_min x y brks ans n_bin s e = Inr ans'"
  shows "length ans' = length ans"
proof -
  from assms obtain k' where
    r: "scan_bins no_enter (min_fold y) x brks n_bin s e ans = Inr (k', ans')"
    by (auto simp: bin_y_on_x_with_breaks_min_def ebind_eq_Inr)
  show ?thesis
    by (rule scan_bins_preserves[where Q = "\<lambda>a. length a = length ans", OF r])
       (auto simp: no_enter_def dest: min_fold_length)
qed

lemma bin_sum_length:
  assumes "bin_y_on_x_with_breaks_sum x y brks ans n_bin s e = Inr ans'"
  shows "length ans' = length ans"
proof -
  from assms obtain k' where
    r: "scan_bins no_enter (sum_fold y) x brks n_bin s e ans = Inr (k', ans')"
    by (auto simp: bin_y_on_x_with_breaks_sum_def ebind_eq_Inr)
  show ?thesis
    by (rule scan_bins_preserves[where Q = "\<lambda>a. length a = length ans", OF r])
       (auto simp: no_enter_def dest: sum_fold_length)
qed

lemma bin_mean_length:
  assumes "bin_y_on_x_with_breaks_mean x y brks ans n_bin s e = Inr ans'"
  shows "length ans' = length ans"
proof -
  from assms obtain k' a el where
    r: "scan_bins mean_enter (mean_fold y) x brks n_bin s e (ans, replicate (nat n_bin) 0)
          = Inr (k', (a, el))"
    and d: "mean_divide n_bin el a = Inr ans'"
    by (auto simp: bin_y_on_x_with_breaks_mean_def ebind_eq_Inr Let_def split: if_splits)
  have "length (fst (a, el)) = length ans"
    by (rule scan_bins_preserves[where Q = "\<lambda>st. length (fst st) = length ans", OF r])
       (auto dest: mean_fold_length mean_enter_length)
  with mean_divide_length[OF d] show ?thesis by simp
qed

lemma binYonX_switch_length:
  assumes "binYonX_switch the_method x y p_brks p_ans n_bin from_idx to_idx = Inr ans'"
  shows "length ans' = length p_ans"
  using assms bin_max_length bin_min_length bin_sum_length bin_mean_length
  unfolding binYonX_switch_def by (simp split: if_splits)

lemma breaks_on_nBins_internal_length:
  assumes "breaks_on_nBins_internal from_val to_val n_bin brks s = Inr out"
  shows "length out = length brks"
proof -
  from assms obtain c0 step c where
    r: "for_loop 0 (n_bin + 1)
          (\<lambda>i (b, c). ebind (wr b i c) (\<lambda>b. Inr (b, dadd c step))) (brks, c0) = Inr (out, c)"
    by (auto simp: breaks_on_nBins_internal_def Let_def ebind_eq_Inr split: if_splits)
  have "length (fst (out, c)) = length brks"
    by (rule for_loop_preserves[where Q = "\<lambda>p. length (fst p) = length brks", OF r])
       (auto simp: ebind_eq_Inr wr_eq_Inr)
  then show ?thesis by simp
qed

lemma breaks_on_binSize_internal_length:
  assumes "breaks_on_binSize_internal from_val to_val n_bin bin_size brks = Inr out"
  shows "length out = length brks \<and> 0 \<le> n_bin \<and> n_bin < int (length brks)"
proof -
  from assms obtain b c where
    r: "for_loop 0 n_bin
          (\<lambda>i (b, c). ebind (wr b i c) (\<lambda>b. Inr (b, dadd c bin_size))) (brks, from_val)
        = Inr (b, c)"
    and w: "wr b n_bin to_val = Inr out"
    by (auto simp: breaks_on_binSize_internal_def ebind_eq_Inr)
  have "length (fst (b, c)) = length brks"
    by (rule for_loop_preserves[where Q = "\<lambda>p. length (fst p) = length brks", OF r])
       (auto simp: ebind_eq_Inr wr_eq_Inr)
  with w show ?thesis by (auto simp: wr_eq_Inr)
qed

lemma allocVector_eq_Inr:
  "allocVector fill n = Inr v \<longleftrightarrow> 0 \<le> n \<and> v = replicate (nat n) fill"
  by (auto simp: allocVector_def)

lemma int_add_eq_Inr:
  "int_add a b = Inr c \<longleftrightarrow> - 2147483648 \<le> a + b \<and> a + b \<le> 2147483647 \<and> c = a + b"
  by (auto simp: int_add_def)

lemma binYonX_breaks_shape:
  assumes "binYonX_breaks breaks nBins binSize fromX toX s = Inr (n_bin, p_brks)"
  shows "0 \<le> n_bin \<and> int (length p_brks) = n_bin + 1"
proof (cases breaks)
  case (Some bs)
  with assms show ?thesis
    by (auto simp: binYonX_breaks_def ebind_eq_Inr Let_def split: if_splits)
next
  case None
  show ?thesis
  proof (cases nBins)
    case (Some nb)
    with None assms show ?thesis
      by (auto simp: binYonX_breaks_def ebind_eq_Inr Let_def allocVector_eq_Inr
          int_add_eq_Inr split: if_splits dest!: breaks_on_nBins_internal_length)
  next
    case nb: None
    with None assms show ?thesis
      by (auto simp: binYonX_breaks_def ebind_eq_Inr Let_def allocVector_eq_Inr
          int_add_eq_Inr split: if_splits dest!: breaks_on_binSize_internal_length)
  qed
qed

lemma bin_midPoint_result:
  assumes "bin_midPoint brks bin_mids n_bin = Inr out" and "0 \<le> n_bin"
  shows "length out = length bin_mids
         \<and> (\<forall>k. 0 \<le> k \<and> k < n_bin
               \<longrightarrow> out ! nat k = ddiv (dadd (brks ! nat k) (brks ! nat (k + 1))) (Fin 2))"
proof -
  let ?P = "\<lambda>j (m :: double list). length m = length bin_mids
              \<and> (\<forall>k. 0 \<le> k \<and> k < j \<longrightarrow> m ! nat k = ddiv (dadd (brks ! nat k) (brks ! nat (k + 1))) (Fin 2))"
  show ?thesis
  proof (rule for_loop_invariant[where P = ?P, OF assms(1)[unfolded bin_midPoint_def]])
    show "?P 0 bin_mids" by auto
    show "0 \<le> n_bin" by fact
  next
    fix j :: int and u v :: "double list"
    assume j: "0 \<le> j" "j < n_bin" and p: "?P j u"
      and b: "ebind (rd brks j) (\<lambda>b0. ebind (rd brks (j + 1))
                (\<lambda>b1. wr u j (ddiv (dadd b0 b1) (Fin 2)))) = Inr v"
    from b have v: "v = u[nat j := ddiv (dadd (brks ! nat j) (brks ! nat (j + 1))) (Fin 2)]"
      and ju: "j < int (length u)"
      by (auto simp: ebind_eq_Inr rd_eq_Inr wr_eq_Inr)
    have "v ! nat k = ddiv (dadd (brks ! nat k) (brks ! nat (k + 1))) (Fin 2)" if "0 \<le> k \<and> k < j + 1" for k
    proof (cases "k = j")
      case True
      with v ju j show ?thesis by simp
    next
      case False
      with that j have "nat k \<noteq> nat j" "k < j" by auto
      with v p that show ?thesis by simp
    qed
    with v p show "?P (j + 1) v" by simp
  qed
qed

subsection \<open>The scan of a reducer replays the assignment\<close>

lemma replay_append:
  "replay enter f st (evs1 @ evs2)
   = ebind (replay enter f st evs1) (\<lambda>st'. replay enter f st' evs2)"
proof (induction evs1 arbitrary: st)
  case Nil
  show ?case by simp
next
  case (Cons ev evs1)
  show ?case
  proof (cases ev)
    case (Enter i)
    with Cons show ?thesis by (cases "enter i st") simp_all
  next
    case (Sample i k)
    with Cons show ?thesis by (cases "f i k st") simp_all
  qed
qed

lemma scan_while_replay:
  assumes "scan_while record_sample x brks l i e k tr = Inr (k', tr')"
  shows "\<exists>evs. tr' = tr @ evs
           \<and> (\<forall>enter f st. scan_while f x brks l i e k st
                  = ebind (replay enter f st evs) (\<lambda>st'. Inr (k', st')))"
  using assms
proof (induction "record_sample" x brks l i e k tr rule: scan_while.induct)
  case (1 x brks l i e k tr)
  note run = "1.prems"[unfolded scan_while.simps[of record_sample x brks l i e k tr]]
  show ?case
  proof (cases "k \<le> e")
    case False
    with run have "k' = k" "tr' = tr" by simp_all
    moreover have "scan_while f x brks l i e k st = Inr (k, st)" for f and st :: 'a
      using False by (subst scan_while.simps) simp
    ultimately show ?thesis by simp
  next
    case True
    with run obtain xv lo where xv: "rd x k = Inr xv" and lo: "rd brks i = Inr lo"
      by (auto split: sum.splits)
    show ?thesis
    proof (cases "dge xv lo")
      case False
      with True xv lo run
      have r: "scan_while record_sample x brks l i e (k + 1) tr = Inr (k', tr')" by simp
      from "1.hyps"(2)[OF True xv lo False r] obtain evs where
        evs: "tr' = tr @ evs"
         "\<And>enter f st. scan_while f x brks l i e (k + 1) (st :: 'a)
              = ebind (replay enter f st evs) (\<lambda>st'. Inr (k', st'))"
        by blast
      have "scan_while f x brks l i e k st = ebind (replay enter f st evs) (\<lambda>st'. Inr (k', st'))"
        for enter f and st :: 'a
        using True xv lo False evs(2)[of f st enter]
        by (subst scan_while.simps) simp
      with evs(1) show ?thesis by blast
    next
      case ge: True
      with True xv lo run obtain hi where hi: "rd brks (i + 1) = Inr hi"
        by (auto split: sum.splits)
      show ?thesis
      proof (cases "dlt xv hi \<or> (deq xv hi \<and> i = l)")
        case False
        with True xv lo ge hi run have "k' = k" "tr' = tr" by auto
        moreover have "scan_while f x brks l i e k st = Inr (k, st)" for f and st :: 'a
          using True xv lo ge hi False by (subst scan_while.simps) auto
        ultimately show ?thesis by simp
      next
        case inbin: True
        have rs: "record_sample i k tr = Inr (tr @ [Sample i k])"
          by (simp add: record_sample_def)
        with True xv lo ge hi inbin run
        have r: "scan_while record_sample x brks l i e (k + 1) (tr @ [Sample i k]) = Inr (k', tr')"
          by auto
        from "1.hyps"(1)[OF True xv lo ge hi inbin rs r] obtain evs where
          evs: "tr' = (tr @ [Sample i k]) @ evs"
           "\<And>enter f st. scan_while f x brks l i e (k + 1) (st :: 'a)
              = ebind (replay enter f st evs) (\<lambda>st'. Inr (k', st'))"
          by blast
        have "scan_while f x brks l i e k st
              = ebind (replay enter f st (Sample i k # evs)) (\<lambda>st'. Inr (k', st'))"
          for enter f and st :: 'a
        proof (cases "f i k st")
          case (Inl err)
          with True xv lo ge hi inbin show ?thesis
            by (subst scan_while.simps) auto
        next
          case (Inr st1)
          with True xv lo ge hi inbin evs(2)[of f st1 enter] show ?thesis
            by (subst scan_while.simps) auto
        qed
        with evs(1) show ?thesis by (intro exI[of _ "Sample i k # evs"]) simp
      qed
    qed
  qed
qed

lemma scan_loop_replay:
  assumes "for_loop i n
             (\<lambda>i (k, tr). ebind (record_enter i tr)
                (\<lambda>tr. scan_while record_sample x brks l i e k tr)) (k, tr) = Inr (k', tr')"
  shows "\<exists>evs. tr' = tr @ evs
           \<and> (\<forall>enter f st.
                 for_loop i n
                   (\<lambda>i (k, st). ebind (enter i st)
                      (\<lambda>st. scan_while f x brks l i e k st)) (k, st)
                 = ebind (replay enter f st evs) (\<lambda>st'. Inr (k', st')))"
  using assms
proof (induction i n "\<lambda>i (k, tr). ebind (record_enter i tr)
                (\<lambda>tr. scan_while record_sample x brks l i e k tr)" "(k, tr)"
    arbitrary: k tr rule: for_loop.induct)
  case (1 i n)
  let ?tb = "\<lambda>i (k, tr). ebind (record_enter i tr)
                (\<lambda>tr. scan_while record_sample x brks l i e k tr)"
  show ?case
  proof (cases "i < n")
    case False
    with "1.prems" have "k' = k" "tr' = tr" by (simp_all add: for_loop_done)
    with False show ?thesis by (simp add: for_loop_done)
  next
    case True
    from "1.prems" True obtain k1 tr1 where
      w: "scan_while record_sample x brks l i e k (tr @ [Enter i]) = Inr (k1, tr1)"
      and r: "for_loop (i + 1) n ?tb (k1, tr1) = Inr (k', tr')"
      by (auto simp: for_loop_step ebind_eq_Inr record_enter_def)
    from scan_while_replay[OF w] obtain evs1 where
      e1: "tr1 = (tr @ [Enter i]) @ evs1"
       "\<And>enter f st. scan_while f x brks l i e k (st :: 'a)
              = ebind (replay enter f st evs1) (\<lambda>st'. Inr (k1, st'))"
      by blast
    have b: "?tb i (k, tr) = Inr (k1, tr1)"
      using w by (simp add: record_enter_def)
    from "1.hyps"[OF True b r] obtain evs2 where
      e2: "tr' = tr1 @ evs2"
       "\<And>enter f st. for_loop (i + 1) n
                   (\<lambda>i (k, st). ebind (enter i st)
                      (\<lambda>st. scan_while f x brks l i e k st)) (k1, st :: 'a)
                 = ebind (replay enter f st evs2) (\<lambda>st'. Inr (k', st'))"
      by blast
    have "for_loop i n
                   (\<lambda>i (k, st). ebind (enter i st)
                      (\<lambda>st. scan_while f x brks l i e k st)) (k, st)
          = ebind (replay enter f st (Enter i # evs1 @ evs2)) (\<lambda>st'. Inr (k', st'))"
      for enter f and st :: 'a
    proof (cases "enter i st")
      case (Inl err)
      with True show ?thesis by (simp add: for_loop_step)
    next
      case (Inr st1)
      show ?thesis
      proof (cases "replay enter f st1 evs1")
        case (Inl err)
        with True Inr e1(2)[of f st1 enter] show ?thesis
          by (simp add: for_loop_step replay_append)
      next
        case st2: (Inr st2)
        with True Inr e1(2)[of f st1 enter] e2(2)[of enter f st2] show ?thesis
          by (simp add: for_loop_step replay_append)
      qed
    qed
    moreover have "tr' = tr @ (Enter i # evs1 @ evs2)" using e1(1) e2(1) by simp
    ultimately show ?thesis by blast
  qed
qed

lemma scan_bins_replay:
  assumes "assignment x brks n_bin x_start_idx x_end_idx = Inr evs"
  shows "\<exists>k'. \<forall>enter f st. scan_bins enter f x brks n_bin x_start_idx x_end_idx st
           = ebind (replay enter f st evs) (\<lambda>st'. Inr (k', st'))"
proof -
  from assms obtain k' where
    "scan_bins record_enter record_sample x brks n_bin x_start_idx x_end_idx [] = Inr (k', evs)"
    by (auto simp: assignment_def ebind_eq_Inr)
  from scan_loop_replay[OF this[unfolded scan_bins_def Let_def]] show ?thesis
    unfolding scan_bins_def Let_def by auto
qed

subsection \<open>Bins whose samples are all missing\<close>

lemma max_fold_NA: "rd y k = Inr NA_REAL \<Longrightarrow> max_fold y i k ans = Inr ans"
  by (simp add: max_fold_def)

lemma min_fold_NA: "rd y k = Inr NA_REAL \<Longrightarrow> min_fold y i k ans = Inr ans"
  by (simp add: min_fold_def)

lemma sum_fold_NA: "rd y k = Inr NA_REAL \<Longrightarrow> sum_fold y i k ans = Inr ans"
  by (simp add: sum_fold_def)

lemma mean_fold_NA: "rd y k = Inr NA_REAL \<Longrightarrow> mean_fold y i k st = Inr st"
  by (cases st) (simp add: mean_fold_def)

lemma max_fold_other:
  "max_fold y j k ans = Inr ans' \<Longrightarrow> 0 \<le> i \<Longrightarrow> j \<noteq> i \<Longrightarrow> ans' ! nat i = ans ! nat i"
  by (auto simp: max_fold_def ebind_def wr_eq_Inr split: sum.splits option.splits if_splits)

lemma min_fold_other:
  "min_fold y j k ans = Inr ans' \<Longrightarrow> 0 \<le> i \<Longrightarrow> j \<noteq> i \<Longrightarrow> ans' ! nat i = ans ! nat i"
  by (auto simp: min_fold_def ebind_def wr_eq_Inr split: sum.splits option.splits if_splits)

lemma sum_fold_other:
  "sum_fold y j k ans = Inr ans' \<Longrightarrow> 0 \<le> i \<Longrightarrow> j \<noteq> i \<Longrightarrow> ans' ! nat i = ans ! nat i"
  by (auto simp: sum_fold_def ebind_def wr_eq_Inr split: sum.splits option.splits if_splits)

lemma mean_fold_other:
  "mean_fold y j k (ans, el) = Inr (ans', el') \<Longrightarrow> 0 \<le> i \<Longrightarrow> j \<noteq> i
     \<Longrightarrow> ans' ! nat i = ans ! nat i \<and> el' ! nat i = el ! nat i"
  by (auto simp: mean_fold_def ebind_def wr_eq_Inr split: sum.splits option.splits if_splits)

lemma replay_keeps_bin:
  assumes "replay no_enter f ans evs = Inr ans'"
    and "\<forall>k. Sample i k \<in> set evs \<longrightarrow> rd y k = Inr NA_REAL"
    and "\<And>k a. rd y k = Inr NA_REAL \<Longrightarrow> f i k a = Inr a"
    and "\<And>j k a a'. f j k a = Inr a' \<Longrightarrow> j \<noteq> i \<Longrightarrow> a' ! nat i = a ! nat i"
  shows "ans' ! nat i = ans ! nat i"
  using assms(1,2)
proof (induction evs arbitrary: ans)
  case Nil
  then show ?case by simp
next
  case (Cons ev evs)
  show ?case
  proof (cases ev)
    case (Enter j)
    have "no_enter j ans = Inr ans" by (simp add: no_enter_def)
    with Cons.prems(1) Enter have "replay no_enter f ans evs = Inr ans'"
      by (simp only: replay.simps sum.case)
    with Cons.IH Cons.prems(2) show ?thesis by simp
  next
    case (Sample j k)
    with Cons.prems(1) obtain a1 where f: "f j k ans = Inr a1"
      and r: "replay no_enter f a1 evs = Inr ans'"
      by (auto split: sum.splits)
    have "a1 ! nat i = ans ! nat i"
    proof (cases "j = i")
      case True
      with Cons.prems(2) Sample have "rd y k = Inr NA_REAL" by simp
      from assms(3)[OF this] f True show ?thesis by simp
    next
      case False
      from assms(4)[OF f False] show ?thesis .
    qed
    moreover from Cons.IH[OF r] Cons.prems(2) have "ans' ! nat i = a1 ! nat i" by simp
    ultimately show ?thesis by simp
  qed
qed

lemma replay_mean_keeps_bin:
  assumes "replay mean_enter (mean_fold y) (ans, el) evs = Inr (ans', el')"
    and "\<forall>k. Sample i k \<in> set evs \<longrightarrow> rd y k = Inr NA_REAL"
    and "0 \<le> i" and "el ! nat i = 0"
  shows "ans' ! nat i = ans ! nat i \<and> el' ! nat i = 0"
  using assms(1,2,4)
proof (induction evs arbitrary: ans el)
  case Nil
  then show ?case by simp
next
  case (Cons ev evs)
  show ?case
  proof (cases ev)
    case (Enter j)
    with Cons.prems(1) obtain st1 where m: "mean_enter j (ans, el) = Inr st1"
      and r1: "replay mean_enter (mean_fold y) st1 evs = Inr (ans', el')"
      by (auto split: sum.splits)
    from m obtain el1 where w: "wr el j 0 = Inr el1" and st1: "st1 = (ans, el1)"
      by (auto simp: mean_enter_def ebind_eq_Inr)
    from r1 st1 have r: "replay mean_enter (mean_fold y) (ans, el1) evs = Inr (ans', el')"
      by simp
    from w Cons.prems(3) assms(3) have "el1 ! nat i = 0"
      by (cases "j = i") (auto simp: wr_eq_Inr)
    from Cons.IH[OF r _ this] Cons.prems(2) show ?thesis by simp
  next
    case (Sample j k)
    with Cons.prems(1) obtain a1 el1 where f: "mean_fold y j k (ans, el) = Inr (a1, el1)"
      and r: "replay mean_enter (mean_fold y) (a1, el1) evs = Inr (ans', el')"
      by (auto split: sum.splits)
    have "a1 ! nat i = ans ! nat i \<and> el1 ! nat i = 0"
    proof (cases "j = i")
      case True
      with Cons.prems(2) Sample have "rd y k = Inr NA_REAL" by simp
      from mean_fold_NA[OF this, of i "(ans, el)"] f True Cons.prems(3) show ?thesis by simp
    next
      case False
      from mean_fold_other[OF f assms(3) False] Cons.prems(3) show ?thesis by simp
    qed
    with Cons.IH[OF r] Cons.prems(2) show ?thesis by simp
  qed
qed

lemma mean_divide_result:
  assumes "mean_divide n_bin el_count ans = Inr ans'" and "0 \<le> n_bin"
  shows "\<forall>k. 0 \<le> k \<and> k < n_bin
           \<longrightarrow> ans' ! nat k = (if el_count ! nat k > 0
                                then dbl_div_int (ans ! nat k) (el_count ! nat k)
                                else ans ! nat k)"
proof -
  let ?r = "\<lambda>k. if el_count ! nat k > 0 then dbl_div_int (ans ! nat k) (el_count ! nat k)
                 else ans ! nat k"
  let ?P = "\<lambda>j (a :: dbl list). (\<forall>k. 0 \<le> k \<and> k < j \<longrightarrow> a ! nat k = ?r k)
                                \<and> (\<forall>k. j \<le> k \<longrightarrow> a ! nat k = ans ! nat k)"
  have "?P n_bin ans'"
  proof (rule for_loop_invariant[where P = ?P, OF assms(1)[unfolded mean_divide_def]])
    show "?P 0 ans" by auto
    show "0 \<le> n_bin" by fact
  next
    fix j :: int and u v :: "dbl list"
    assume j: "0 \<le> j" "j < n_bin" and p: "?P j u"
      and b: "ebind (rd el_count j)
                (\<lambda>c. if c > 0 then ebind (rd u j) (\<lambda>a. wr u j (dbl_div_int a c)) else Inr u)
              = Inr v"
    from p have uj: "u ! nat j = ans ! nat j" by simp
    from b uj have vj: "v ! nat j = ?r j"
      by (auto simp: ebind_eq_Inr rd_eq_Inr wr_eq_Inr split: if_splits)
    from b j have vk: "v ! nat k = u ! nat k" if "0 \<le> k" "k \<noteq> j" for k
      using that by (auto simp: ebind_eq_Inr rd_eq_Inr wr_eq_Inr split: if_splits)
    have "v ! nat k = ?r k" if "0 \<le> k \<and> k < j + 1" for k
    proof (cases "k = j")
      case True
      with vj show ?thesis by simp
    next
      case False
      with that vk[of k] p show ?thesis by simp
    qed
    moreover have "v ! nat k = ans ! nat k" if "j + 1 \<le> k" for k
      using that vk[of k] p j by simp
    ultimately show "?P (j + 1) v" by blast
  qed
  then show ?thesis by blast
qed

lemma switch_keeps_missing_bin:
  assumes sw: "binYonX_switch the_method x y brks ans n_bin s e = Inr ans'"
    and asg: "assignment x brks n_bin s e = Inr evs"
    and i: "0 \<le> i" "i < n_bin"
    and na: "\<forall>k. Sample i k \<in> set evs \<longrightarrow> rd y k = Inr NA_REAL"
  shows "ans' ! nat i = ans ! nat i"
proof -
  from scan_bins_replay[OF asg] obtain k' where
    rp: "\<And>enter f st. scan_bins enter f x brks n_bin s e (st :: dbl list)
           = ebind (replay enter f st evs) (\<lambda>st'. Inr (k', st'))"
    by blast
  from scan_bins_replay[OF asg] obtain k'' where
    rpm: "\<And>enter f st. scan_bins enter f x brks n_bin s e (st :: dbl list \<times> int list)
           = ebind (replay enter f st evs) (\<lambda>st'. Inr (k'', st'))"
    by blast
  consider (mn) "the_method = 2" | (sm) "the_method = 3" | (me) "the_method = 4"
    | (mx) "the_method \<noteq> 2" "the_method \<noteq> 3" "the_method \<noteq> 4" by blast
  then show ?thesis
  proof cases
    case mx
    with sw have "replay no_enter (max_fold y) ans evs = Inr ans'"
      by (auto simp: binYonX_switch_def bin_y_on_x_with_breaks_max_def rp ebind_eq_Inr)
    then show ?thesis
      by (rule replay_keeps_bin[OF _ na]) (auto intro: max_fold_NA max_fold_other i)
  next
    case mn
    with sw have "replay no_enter (min_fold y) ans evs = Inr ans'"
      by (auto simp: binYonX_switch_def bin_y_on_x_with_breaks_min_def rp ebind_eq_Inr)
    then show ?thesis
      by (rule replay_keeps_bin[OF _ na]) (auto intro: min_fold_NA min_fold_other i)
  next
    case sm
    with sw have "replay no_enter (sum_fold y) ans evs = Inr ans'"
      by (auto simp: binYonX_switch_def bin_y_on_x_with_breaks_sum_def rp ebind_eq_Inr)
    then show ?thesis
      by (rule replay_keeps_bin[OF _ na]) (auto intro: sum_fold_NA sum_fold_other i)
  next
    case me
    with sw obtain a el where
      r: "replay mean_enter (mean_fold y) (ans, replicate (nat n_bin) 0) evs = Inr (a, el)"
      and d: "mean_divide n_bin el a = Inr ans'"
      by (auto simp: binYonX_switch_def bin_y_on_x_with_breaks_mean_def rpm ebind_eq_Inr
          Let_def split: if_splits)
    have "replicate (nat n_bin) (0::int) ! nat i = 0" using i by simp
    from replay_mean_keeps_bin[OF r na i(1) this]
    have k: "a ! nat i = ans ! nat i" "el ! nat i = 0" by simp_all
    from mean_divide_result[OF d] i k show ?thesis by simp
  qed
qed

lemma init_loop_result:
  assumes "for_loop 0 n_bin (\<lambda>i p_ans. wr p_ans i NA_REAL) ans = Inr ans'" and "0 \<le> n_bin"
  shows "\<forall>k. 0 \<le> k \<and> k < n_bin \<longrightarrow> ans' ! nat k = NA_REAL"
proof -
  let ?P = "\<lambda>j (a :: dbl list). \<forall>k. 0 \<le> k \<and> k < j \<longrightarrow> a ! nat k = NA_REAL"
  show ?thesis
  proof (rule for_loop_invariant[where P = ?P, OF assms(1)])
    show "?P 0 ans" by auto
    show "0 \<le> n_bin" by fact
  next
    fix j :: int and u v :: "dbl list"
    assume j: "0 \<le> j" "j < n_bin" and p: "?P j u" and b: "wr u j NA_REAL = Inr v"
    have "v ! nat k = NA_REAL" if "0 \<le> k \<and> k < j + 1" for k
    proof (cases "k = j")
      case True
      with b show ?thesis by (auto simp: wr_eq_Inr)
    next
      case False
      with that j have "nat k \<noteq> nat j" "k < j" by auto
      with b p that show ?thesis by (auto simp: wr_eq_Inr)
    qed
    then show "?P (j + 1) v" by blast
  qed
qed

lemma default_loop_result:
  assumes "for_loop 0 n_bin
             (\<lambda>i p_ans. ebind (rd p_ans i)
                (\<lambda>a. if ISNA a then wr p_ans i init_value else Inr p_ans)) ans = Inr ans'"
    and "0 \<le> n_bin"
  shows "\<forall>k. 0 \<le> k \<and> k < n_bin
           \<longrightarrow> ans' ! nat k = (if ISNA (ans ! nat k) then init_value else ans ! nat k)"
proof -
  let ?r = "\<lambda>k. if ISNA (ans ! nat k) then init_value else ans ! nat k"
  let ?P = "\<lambda>j (a :: dbl list). (\<forall>k. 0 \<le> k \<and> k < j \<longrightarrow> a ! nat k = ?r k)
                                \<and> (\<forall>k. j \<le> k \<longrightarrow> a ! nat k = ans ! nat k)"
  have "?P n_bin ans'"
  proof (rule for_loop_invariant[where P = ?P, OF assms(1)])
    show "?P 0 ans" by auto
    show "0 \<le> n_bin" by fact
  next
    fix j :: int and u v :: "dbl list"
    assume j: "0 \<le> j" "j < n_bin" and p: "?P j u"
      and b: "ebind (rd u j) (\<lambda>a. if ISNA a then wr u j init_value else Inr u) = Inr v"
    from p have uj: "u ! nat j = ans ! nat j" by simp
    from b uj have vj: "v ! nat j = ?r j"
      by (auto simp: ebind_eq_Inr rd_eq_Inr wr_eq_Inr split: if_splits)
    from b j have vk: "v ! nat k = u ! nat k" if "0 \<le> k" "k \<noteq> j" for k
      using that by (auto simp: ebind_eq_Inr rd_eq_Inr wr_eq_Inr split: if_splits)
    have "v ! nat k = ?r k" if "0 \<le> k \<and> k < j + 1" for k
    proof (cases "k = j")
      case True
      with vj show ?thesis by simp
    next
      case False
      with that vk[of k] p show ?thesis by simp
    qed
    moreover have "v ! nat k = ans ! nat k" if "j + 1 \<le> k" for k
      using that vk[of k] p j by simp
    ultimately show "?P (j + 1) v" by blast
  qed
  then show ?thesis by blast
qed

lemma binYonX_missing_bin:
  assumes run: "binYonX x y breaks nBins binSize fromX toX fromIdx toIdx shiftByHalfBinSize
             initValue method = Inr (bin_mids, ans)"
    and br: "binYonX_breaks breaks nBins binSize fromX toX shiftByHalfBinSize = Inr (n_bin, brks)"
    and asg: "assignment x brks n_bin fromIdx toIdx = Inr evs"
    and i: "0 \<le> i" "i < n_bin"
    and na: "\<forall>k. Sample i k \<in> set evs \<longrightarrow> rd y k = Inr NA_REAL"
  shows "ans ! nat i = initValue"
proof -
  from run br obtain a0 a1 a2 where
    a0: "allocVector NA_REAL n_bin = Inr a0"
    and a1: "for_loop 0 n_bin (\<lambda>i p_ans. wr p_ans i NA_REAL) a0 = Inr a1"
    and a2: "binYonX_switch method x y brks a1 n_bin fromIdx toIdx = Inr a2"
    and a3: "(if \<not> ISNA initValue
                  then for_loop 0 n_bin
                         (\<lambda>i p_ans. ebind (rd p_ans i)
                            (\<lambda>a. if ISNA a then wr p_ans i initValue else Inr p_ans))
                         a2
                  else Inr a2) = Inr ans"
    by (auto simp: binYonX_def ebind_eq_Inr split: if_splits)
  from i have n: "0 \<le> n_bin" by simp
  from init_loop_result[OF a1 n] i have "a1 ! nat i = NA_REAL" by simp
  with switch_keeps_missing_bin[OF a2 asg i na] have m: "a2 ! nat i = NA_REAL" by simp
  show ?thesis
  proof (cases "ISNA initValue")
    case True
    with a3 m show ?thesis by (simp add: ISNA_def)
  next
    case False
    with a3 have "for_loop 0 n_bin
                         (\<lambda>i p_ans. ebind (rd p_ans i)
                            (\<lambda>a. if ISNA a then wr p_ans i initValue else Inr p_ans))
                         a2 = Inr ans" by simp
    from default_loop_result[OF this n] i m show ?thesis by (simp add: ISNA_def)
  qed
qed

subsection \<open>Leading samples below the first break\<close>

lemma scan_while_skip:
  assumes "k \<le> k0" and "k0 \<le> e + 1" and "0 \<le> k" and "k0 \<le> int (length x)"
    and "0 \<le> i" and "i < int (length brks)"
    and "\<forall>m. k \<le> m \<and> m < k0 \<longrightarrow> dlt (x ! nat m) (brks ! nat i)"
  shows "scan_while f x brks l i e k st = scan_while f x brks l i e k0 st"
  using assms
proof (induction "nat (k0 - k)" arbitrary: k)
  case 0
  then have "k = k0" by simp
  then show ?case by simp
next
  case (Suc d)
  then have lt: "k < k0" by linarith
  with Suc.prems have ke: "k \<le> e" by simp
  from lt Suc.prems have xk: "rd x k = Inr (x ! nat k)" by (simp add: rd_Inr)
  from Suc.prems have bi: "rd brks i = Inr (brks ! nat i)" by (simp add: rd_Inr)
  from lt Suc.prems(7) have low: "\<not> dge (x ! nat k) (brks ! nat i)" by (simp add: dlt_not_dge)
  have "scan_while f x brks l i e k st = scan_while f x brks l i e (k + 1) st"
    using ke xk bi low by (subst scan_while.simps) simp
  also have "\<dots> = scan_while f x brks l i e k0 st"
  proof (rule Suc.hyps(1))
    show "d = nat (k0 - (k + 1))" using Suc.hyps(2) by linarith
    show "k + 1 \<le> k0" using lt by simp
    show "\<forall>m. k + 1 \<le> m \<and> m < k0 \<longrightarrow> dlt (x ! nat m) (brks ! nat i)"
      using Suc.prems(7) by simp
  qed (use Suc.prems in simp_all)
  finally show ?case .
qed

lemma scan_bins_skip:
  assumes "s \<le> k0" and "k0 \<le> e + 1" and "0 \<le> s" and "k0 \<le> int (length x)"
    and "brks \<noteq> []"
    and "\<forall>m. s \<le> m \<and> m < k0 \<longrightarrow> dlt (x ! nat m) (brks ! 0)"
    and True: "0 < n_bin"
  shows "scan_bins enter f x brks n_bin s e st = scan_bins enter f x brks n_bin k0 e st"
proof -
  have "scan_while f x brks (n_bin - 1) 0 e s st1 = scan_while f x brks (n_bin - 1) 0 e k0 st1"
    for st1
    by (rule scan_while_skip) (use assms in simp_all)
  then have "scan_while f x brks (n_bin - 1) 0 e s = scan_while f x brks (n_bin - 1) 0 e k0"
    by (rule ext)
  then show ?thesis
    using True by (simp add: scan_bins_def for_loop_step Let_def)
qed

lemma binYonX_switch_skip:
  assumes "s \<le> k0" and "k0 \<le> e + 1" and "0 \<le> s" and "k0 \<le> int (length x)"
    and "brks \<noteq> []"
    and "\<forall>m. s \<le> m \<and> m < k0 \<longrightarrow> dlt (x ! nat m) (brks ! 0)"
  shows "binYonX_switch the_method x y brks ans n_bin s e
         = binYonX_switch the_method x y brks ans n_bin k0 e"
proof (cases "0 < n_bin")
  case True
  show ?thesis
    by (simp add: binYonX_switch_def bin_y_on_x_with_breaks_max_def
        bin_y_on_x_with_breaks_min_def bin_y_on_x_with_breaks_sum_def
        bin_y_on_x_with_breaks_mean_def scan_bins_skip[OF assms True])
next
  case False
  then show ?thesis
    by (simp add: binYonX_switch_def bin_y_on_x_with_breaks_max_def
        bin_y_on_x_with_breaks_min_def bin_y_on_x_with_breaks_sum_def
        bin_y_on_x_with_breaks_mean_def scan_bins_def for_loop_done)
qed

lemma binYonX_skip:
  assumes br: "binYonX_breaks breaks nBins binSize fromX toX shiftByHalfBinSize
                 = Inr (n_bin, brks)"
    and idx: "0 \<le> fromIdx" "fromIdx \<le> k0" "k0 \<le> toIdx" "toIdx < int (length x)"
    and low: "\<forall>m. fromIdx \<le> m \<and> m < k0 \<longrightarrow> dlt (x ! nat m) (brks ! 0)"
  shows "binYonX x y breaks nBins binSize fromX toX fromIdx toIdx shiftByHalfBinSize
           initValue method
         = binYonX x y breaks nBins binSize fromX toX k0 toIdx shiftByHalfBinSize
             initValue method"
proof -
  from binYonX_breaks_shape[OF br] have "brks \<noteq> []" by auto
  have sw: "binYonX_switch method x y brks a n_bin fromIdx toIdx
            = binYonX_switch method x y brks a n_bin k0 toIdx" for a
    by (rule binYonX_switch_skip) (use idx low \<open>brks \<noteq> []\<close> in simp_all)
  show ?thesis
    using idx br by (simp add: binYonX_def sw)
qed

lemma assignment_skip:
  assumes "s \<le> k0" and "k0 \<le> e + 1" and "0 \<le> s" and "k0 \<le> int (length x)"
    and "brks \<noteq> []"
    and "\<forall>m. s \<le> m \<and> m < k0 \<longrightarrow> dlt (x ! nat m) (brks ! 0)"
  shows "assignment x brks n_bin s e = assignment x brks n_bin k0 e"
proof (cases "0 < n_bin")
  case True
  show ?thesis by (simp add: assignment_def scan_bins_skip[OF assms True])
next
  case False
  then show ?thesis by (simp add: assignment_def scan_bins_def for_loop_done)
qed

subsection \<open>Every assigned sample lies in its bin\<close>

lemma scan_while_sound:
  assumes "scan_while record_sample x brks l i e k tr = Inr (k', tr')"
  shows "k \<le> k' \<and> (\<forall>ev \<in> set tr'. ev \<in> set tr
           \<or> (\<exists>m. ev = Sample i m \<and> k \<le> m \<and> m \<le> e \<and> 0 \<le> i
                  \<and> dle (brks ! nat i) (x ! nat m)
                  \<and> (dlt (x ! nat m) (brks ! nat (i + 1))
                       \<or> (deq (x ! nat m) (brks ! nat (i + 1)) \<and> i = l))))"
  using assms
proof (induction "record_sample" x brks l i e k tr rule: scan_while.induct)
  case (1 x brks l i e k tr)
  note run = "1.prems"[unfolded scan_while.simps[of record_sample x brks l i e k tr]]
  show ?case
  proof (cases "k \<le> e")
    case False
    with run show ?thesis by simp
  next
    case True
    with run obtain xv lo where xv: "rd x k = Inr xv" and lo: "rd brks i = Inr lo"
      by (auto split: sum.splits)
    show ?thesis
    proof (cases "dge xv lo")
      case False
      with True xv lo run
      have r: "scan_while record_sample x brks l i e (k + 1) tr = Inr (k', tr')" by simp
      from "1.hyps"(2)[OF True xv lo False r] show ?thesis by fastforce
    next
      case ge: True
      with True xv lo run obtain hi where hi: "rd brks (i + 1) = Inr hi"
        by (auto split: sum.splits)
      show ?thesis
      proof (cases "dlt xv hi \<or> (deq xv hi \<and> i = l)")
        case False
        with True xv lo ge hi run show ?thesis by auto
      next
        case inbin: True
        have rs: "record_sample i k tr = Inr (tr @ [Sample i k])"
          by (simp add: record_sample_def)
        with True xv lo ge hi inbin run
        have r: "scan_while record_sample x brks l i e (k + 1) (tr @ [Sample i k]) = Inr (k', tr')"
          by auto
        note ih = "1.hyps"(1)[OF True xv lo ge hi inbin rs r]
        have here: "0 \<le> i \<and> dle (brks ! nat i) (x ! nat k)
                  \<and> (dlt (x ! nat k) (brks ! nat (i + 1))
                       \<or> (deq (x ! nat k) (brks ! nat (i + 1)) \<and> i = l))"
          using xv lo hi ge inbin by (auto simp: rd_eq_Inr dge_def)
        show ?thesis
        proof (intro conjI ballI)
          show "k \<le> k'" using ih by simp
        next
          fix ev assume "ev \<in> set tr'"
          with ih consider "ev \<in> set tr" | "ev = Sample i k"
            | "\<exists>m. ev = Sample i m \<and> k + 1 \<le> m \<and> m \<le> e \<and> 0 \<le> i
                  \<and> dle (brks ! nat i) (x ! nat m)
                  \<and> (dlt (x ! nat m) (brks ! nat (i + 1))
                       \<or> (deq (x ! nat m) (brks ! nat (i + 1)) \<and> i = l))"
            by auto
          then show "ev \<in> set tr
           \<or> (\<exists>m. ev = Sample i m \<and> k \<le> m \<and> m \<le> e \<and> 0 \<le> i
                  \<and> dle (brks ! nat i) (x ! nat m)
                  \<and> (dlt (x ! nat m) (brks ! nat (i + 1))
                       \<or> (deq (x ! nat m) (brks ! nat (i + 1)) \<and> i = l)))"
          proof cases
            case 1
            then show ?thesis by simp
          next
            case 2
            with here True show ?thesis by simp
          next
            case 3
            then obtain m where "ev = Sample i m" "k + 1 \<le> m" "m \<le> e" "0 \<le> i"
              "dle (brks ! nat i) (x ! nat m)"
              "dlt (x ! nat m) (brks ! nat (i + 1)) \<or> (deq (x ! nat m) (brks ! nat (i + 1)) \<and> i = l)"
              by blast
            then show ?thesis by simp
          qed
        qed
      qed
    qed
  qed
qed

lemma assignment_sound:
  assumes "assignment x brks n_bin s e = Inr evs" and "Sample i k \<in> set evs"
  shows "s \<le> k \<and> k \<le> e \<and> in_bin brks n_bin i (x ! nat k)"
proof -
  let ?good = "\<lambda>ev. case ev of Enter j \<Rightarrow> True
                 | Sample j m \<Rightarrow> s \<le> m \<and> m \<le> e \<and> in_bin brks n_bin j (x ! nat m)"
  let ?P = "\<lambda>j (p :: int \<times> event list). s \<le> fst p \<and> (\<forall>ev \<in> set (snd p). ?good ev)"
  from assms(1) obtain k' where
    run: "for_loop 0 n_bin
           (\<lambda>i (x_current_idx, st).
              ebind (record_enter i st)
                (\<lambda>st. scan_while record_sample x brks (n_bin - 1) i e x_current_idx st))
           (s, []) = Inr (k', evs)"
    by (auto simp: assignment_def scan_bins_def Let_def ebind_eq_Inr)
  have "?P n_bin (k', evs)"
  proof (cases "0 \<le> n_bin")
    case False
    with run show ?thesis by (simp add: for_loop_done)
  next
    case True
    show ?thesis
    proof (rule for_loop_invariant[where P = ?P, OF run _ True])
      show "?P 0 (s, [])" by simp
    next
      fix j :: int and u v :: "int \<times> event list"
      assume j: "0 \<le> j" "j < n_bin" and p: "?P j u"
        and b: "(case u of (x_current_idx, st) \<Rightarrow>
              ebind (record_enter j st)
                (\<lambda>st. scan_while record_sample x brks (n_bin - 1) j e x_current_idx st)) = Inr v"
      obtain c tr where u: "u = (c, tr)" by (cases u)
      obtain c' tr' where v: "v = (c', tr')" by (cases v)
      from b u v have
        w: "scan_while record_sample x brks (n_bin - 1) j e c (tr @ [Enter j]) = Inr (c', tr')"
        by (simp add: record_enter_def)
      note snd = scan_while_sound[OF w]
      have "?good ev" if "ev \<in> set tr'" for ev
      proof -
        from snd that consider "ev \<in> set tr" | "ev = Enter j"
          | m where "ev = Sample j m" "c \<le> m" "m \<le> e" "dle (brks ! nat j) (x ! nat m)"
             "dlt (x ! nat m) (brks ! nat (j + 1)) \<or> (deq (x ! nat m) (brks ! nat (j + 1)) \<and> j = n_bin - 1)"
          by auto
        then show ?thesis
        proof cases
          case 1
          with p u show ?thesis by simp
        next
          case 2
          then show ?thesis by simp
        next
          case 3
          with p u j show ?thesis by (auto simp: in_bin_def dle_def)
        qed
      qed
      with snd p u v show "?P (j + 1) v" by auto
    qed
  qed
  with assms(2) show ?thesis by fastforce
qed

subsection \<open>Calls that return a result\<close>

lemma scan_while_total:
  assumes "Q st" and "0 \<le> k" and "e < int (length x)"
    and "0 \<le> i" and "i + 1 < int (length brks)"
    and "\<And>m u. k \<le> m \<Longrightarrow> m \<le> e \<Longrightarrow> Q u \<Longrightarrow> \<exists>v. f i m u = Inr v \<and> Q v"
  shows "\<exists>k' st'. scan_while f x brks l i e k st = Inr (k', st') \<and> Q st' \<and> k \<le> k'"
  using assms
proof (induction f x brks l i e k st rule: scan_while.induct)
  case (1 f x brks l i e k st)
  show ?case
  proof (cases "k \<le> e")
    case False
    then show ?thesis using "1.prems"(1) by (subst scan_while.simps) simp
  next
    case True
    have xv: "rd x k = Inr (x ! nat k)" using True "1.prems" by (simp add: rd_Inr)
    have lo: "rd brks i = Inr (brks ! nat i)" using "1.prems" by (simp add: rd_Inr)
    have hi: "rd brks (i + 1) = Inr (brks ! nat (i + 1))" using "1.prems" by (simp add: rd_Inr)
    show ?thesis
    proof (cases "dge (x ! nat k) (brks ! nat i)")
      case False
      have "\<exists>k' st'. scan_while f x brks l i e (k + 1) st = Inr (k', st') \<and> Q st' \<and> k + 1 \<le> k'"
        by (rule "1.IH"(2)[OF True xv lo False]) (use "1.prems" in simp_all)
      then obtain k' st' where "scan_while f x brks l i e (k + 1) st = Inr (k', st')"
        "Q st'" "k + 1 \<le> k'" by blast
      then show ?thesis using True xv lo False
        by (subst scan_while.simps) simp
    next
      case ge: True
      show ?thesis
      proof (cases "dlt (x ! nat k) (brks ! nat (i + 1))
                    \<or> (deq (x ! nat k) (brks ! nat (i + 1)) \<and> i = l)")
        case False
        then show ?thesis using True xv lo hi ge "1.prems"(1)
          by (subst scan_while.simps) auto
      next
        case inbin: True
        from "1.prems"(6)[OF _ True "1.prems"(1)] obtain st1 where
          f: "f i k st = Inr st1" and q: "Q st1" by auto
        have "\<exists>k' st'. scan_while f x brks l i e (k + 1) st1 = Inr (k', st') \<and> Q st'
                \<and> k + 1 \<le> k'"
          by (rule "1.IH"(1)[OF True xv lo ge hi inbin f q]) (use "1.prems" in simp_all)
        then obtain k' st' where "scan_while f x brks l i e (k + 1) st1 = Inr (k', st')"
          "Q st'" "k + 1 \<le> k'" by blast
        then show ?thesis using True xv lo hi ge inbin f
          by (subst scan_while.simps) auto
      qed
    qed
  qed
qed

lemma scan_bins_total:
  assumes "Q st" and "0 \<le> s" and "e < int (length x)"
    and "int (length brks) = n_bin + 1"
    and "\<And>j u. 0 \<le> j \<Longrightarrow> j < n_bin \<Longrightarrow> Q u \<Longrightarrow> \<exists>v. enter j u = Inr v \<and> Q v"
    and "\<And>j m u. 0 \<le> j \<Longrightarrow> j < n_bin \<Longrightarrow> s \<le> m \<Longrightarrow> m \<le> e \<Longrightarrow> Q u
            \<Longrightarrow> \<exists>v. f j m u = Inr v \<and> Q v"
  shows "\<exists>k' st'. scan_bins enter f x brks n_bin s e st = Inr (k', st') \<and> Q st'"
proof (cases "0 \<le> n_bin")
  case False
  then show ?thesis using assms(1) by (simp add: scan_bins_def for_loop_done)
next
  case True
  let ?P = "\<lambda>j (p :: int \<times> 'a). s \<le> fst p \<and> Q (snd p)"
  have "\<exists>t. for_loop 0 n_bin
           (\<lambda>i (x_current_idx, st).
              ebind (enter i st)
                (\<lambda>st. scan_while f x brks (n_bin - 1) i e x_current_idx st))
           (s, st) = Inr t \<and> ?P n_bin t"
  proof (rule for_loop_total[where P = ?P])
    show "?P 0 (s, st)" using assms(1) by simp
    show "0 \<le> n_bin" by fact
  next
    fix j :: int and u :: "int \<times> 'a"
    assume j: "0 \<le> j" "j < n_bin" and p: "?P j u"
    obtain c st0 where u: "u = (c, st0)" by (cases u)
    from assms(5)[OF j] p u obtain st1 where en: "enter j st0 = Inr st1" and q1: "Q st1"
      by auto
    have "\<exists>k' st'. scan_while f x brks (n_bin - 1) j e c st1 = Inr (k', st') \<and> Q st' \<and> c \<le> k'"
    proof (rule scan_while_total[where Q = Q, OF q1])
      show "0 \<le> c" using p u assms(2) by simp
      show "e < int (length x)" by fact
      show "0 \<le> j" by fact
      show "j + 1 < int (length brks)" using j assms(4) by simp
    next
      fix m u' assume "c \<le> m" "m \<le> e" "Q u'"
      then show "\<exists>v. f j m u' = Inr v \<and> Q v"
        using assms(6)[OF j, of m u'] p u by simp
    qed
    then obtain k' st' where "scan_while f x brks (n_bin - 1) j e c st1 = Inr (k', st')"
      "Q st'" "c \<le> k'" by blast
    then show "\<exists>v. (case u of (x_current_idx, st) \<Rightarrow>
              ebind (enter j st)
                (\<lambda>st. scan_while f x brks (n_bin - 1) j e x_current_idx st)) = Inr v
            \<and> ?P (j + 1) v"
      using u en p by auto
  qed
  then show ?thesis by (auto simp: scan_bins_def Let_def)
qed

lemma max_fold_total:
  assumes "0 \<le> m" "m < int (length y)" "0 \<le> j" "j < int (length ans)"
  shows "\<exists>v. max_fold y j m ans = Inr v \<and> length v = length ans"
  using assms by (simp add: max_fold_def rd_Inr wr_Inr split: option.split)

lemma min_fold_total:
  assumes "0 \<le> m" "m < int (length y)" "0 \<le> j" "j < int (length ans)"
  shows "\<exists>v. min_fold y j m ans = Inr v \<and> length v = length ans"
  using assms by (simp add: min_fold_def rd_Inr wr_Inr split: option.split)

lemma sum_fold_total:
  assumes "0 \<le> m" "m < int (length y)" "0 \<le> j" "j < int (length ans)"
  shows "\<exists>v. sum_fold y j m ans = Inr v \<and> length v = length ans"
  using assms by (simp add: sum_fold_def rd_Inr wr_Inr split: option.split)

lemma mean_fold_total:
  assumes "0 \<le> m" "m < int (length y)" "0 \<le> j" "j < int (length ans)"
    "j < int (length el)"
  shows "\<exists>a' el'. mean_fold y j m (ans, el) = Inr (a', el')
           \<and> length a' = length ans \<and> length el' = length el"
  using assms by (simp add: mean_fold_def rd_Inr wr_Inr split: option.split)

lemma mean_divide_total:
  assumes "0 \<le> n_bin" "n_bin \<le> int (length el)" "n_bin \<le> int (length ans)"
  shows "\<exists>ans'. mean_divide n_bin el ans = Inr ans'"
proof -
  let ?P = "\<lambda>j (a :: dbl list). length a = length ans"
  have "\<exists>t. for_loop 0 n_bin
         (\<lambda>i ans. ebind (rd el i)
            (\<lambda>c. if c > 0 then ebind (rd ans i) (\<lambda>a. wr ans i (dbl_div_int a c))
                  else Inr ans)) ans = Inr t \<and> ?P n_bin t"
    by (rule for_loop_total[where P = ?P]) (use assms in \<open>auto simp: rd_Inr wr_Inr\<close>)
  then show ?thesis by (auto simp: mean_divide_def)
qed

lemma binYonX_switch_total:
  assumes "0 \<le> s" and "e < int (length x)" and "e < int (length y)"
    and "int (length brks) = n_bin + 1" and "int (length ans) = n_bin"
    and "the_method = 4 \<longrightarrow> 0 < n_bin"
  shows "\<exists>ans'. binYonX_switch the_method x y brks ans n_bin s e = Inr ans'"
proof -
  have plain: "\<exists>k' st'. scan_bins no_enter (f y) x brks n_bin s e ans = Inr (k', st')
                 \<and> length st' = length ans"
    if "\<And>m j a. 0 \<le> m \<Longrightarrow> m < int (length y) \<Longrightarrow> 0 \<le> j \<Longrightarrow> j < int (length a)
           \<Longrightarrow> \<exists>v. f y j m a = Inr v \<and> length v = length a" for f
  proof (rule scan_bins_total[where Q = "\<lambda>a. length a = length ans", OF refl assms(1,2,4)])
    fix j :: int and u :: "dbl list"
    assume "length u = length ans"
    then show "\<exists>v. no_enter j u = Inr v \<and> length v = length ans"
      by (simp add: no_enter_def)
  next
    fix j m :: int and u :: "dbl list"
    assume "0 \<le> j" "j < n_bin" "s \<le> m" "m \<le> e" "length u = length ans"
    with that[of m j u] assms show "\<exists>v. f y j m u = Inr v \<and> length v = length ans"
      by auto
  qed
  consider (mn) "the_method = 2" | (sm) "the_method = 3" | (me) "the_method = 4"
    | (mx) "the_method \<noteq> 2" "the_method \<noteq> 3" "the_method \<noteq> 4" by blast
  then show ?thesis
  proof cases
    case mx
    from plain[of max_fold, OF max_fold_total] mx show ?thesis
      by (auto simp: binYonX_switch_def bin_y_on_x_with_breaks_max_def)
  next
    case mn
    from plain[of min_fold, OF min_fold_total] mn show ?thesis
      by (auto simp: binYonX_switch_def bin_y_on_x_with_breaks_min_def)
  next
    case sm
    from plain[of sum_fold, OF sum_fold_total] sm show ?thesis
      by (auto simp: binYonX_switch_def bin_y_on_x_with_breaks_sum_def)
  next
    case me
    with assms(6) have n: "0 < n_bin" by simp
    let ?Q = "\<lambda>st :: dbl list \<times> int list.
                length (fst st) = length ans \<and> int (length (snd st)) = n_bin"
    have "\<exists>k' st'. scan_bins mean_enter (mean_fold y) x brks n_bin s e
                      (ans, replicate (nat n_bin) 0) = Inr (k', st') \<and> ?Q st'"
    proof (rule scan_bins_total[where Q = ?Q, OF _ assms(1,2,4)])
      show "?Q (ans, replicate (nat n_bin) 0)" using n by simp
    next
      fix j :: int and u :: "dbl list \<times> int list"
      assume "0 \<le> j" "j < n_bin" "?Q u"
      then show "\<exists>v. mean_enter j u = Inr v \<and> ?Q v"
        by (cases u) (simp add: mean_enter_def wr_Inr)
    next
      fix j m :: int and u :: "dbl list \<times> int list"
      assume a: "0 \<le> j" "j < n_bin" "s \<le> m" "m \<le> e" "?Q u"
      obtain a0 el0 where u: "u = (a0, el0)" by (cases u)
      from mean_fold_total[of m y j a0 el0] a u assms
      show "\<exists>v. mean_fold y j m u = Inr v \<and> ?Q v" by auto
    qed
    then obtain k' a' el' where
      r: "scan_bins mean_enter (mean_fold y) x brks n_bin s e (ans, replicate (nat n_bin) 0)
            = Inr (k', (a', el'))"
      and l: "length a' = length ans" "int (length el') = n_bin"
      by auto
    from mean_divide_total[of n_bin el' a'] l assms n obtain ans' where
      "mean_divide n_bin el' a' = Inr ans'" by auto
    with r me n show ?thesis
      by (simp add: binYonX_switch_def bin_y_on_x_with_breaks_mean_def)
  qed
qed

lemma assignment_total:
  assumes "0 \<le> s" and "e < int (length x)" and "int (length brks) = n_bin + 1"
  shows "\<exists>evs. assignment x brks n_bin s e = Inr evs"
proof -
  have "\<exists>k' st'. scan_bins record_enter record_sample x brks n_bin s e [] = Inr (k', st')
          \<and> True"
    by (rule scan_bins_total[where Q = "\<lambda>_. True", OF TrueI assms])
       (simp_all add: record_enter_def record_sample_def)
  then show ?thesis by (auto simp: assignment_def)
qed

subsection \<open>The counters of the mean need no initial value\<close>

text \<open>
  Two runs of a loop whose states are related stay related: both end with the same error,
  or both end with related states. For the mean the relation is that the two states have
  the same result buffer and counters that agree on the bins entered so far; it follows
  that the content \<^verbatim>\<open>el_count\<close> starts with has no influence on the result.
\<close>

lemma for_loop_rel:
  assumes "R i s t" and "i \<le> n"
    and "\<And>j u v. i \<le> j \<Longrightarrow> j < n \<Longrightarrow> R j u v \<Longrightarrow>
           (\<exists>e. body1 j u = Inl e \<and> body2 j v = Inl e)
           \<or> (\<exists>u' v'. body1 j u = Inr u' \<and> body2 j v = Inr v' \<and> R (j + 1) u' v')"
  shows "(\<exists>e. for_loop i n body1 s = Inl e \<and> for_loop i n body2 t = Inl e)
         \<or> (\<exists>s' t'. for_loop i n body1 s = Inr s' \<and> for_loop i n body2 t = Inr t' \<and> R n s' t')"
  using assms
proof (induction i n body1 s arbitrary: t rule: for_loop.induct)
  case (1 i n body1 s)
  show ?case
  proof (cases "i < n")
    case False
    with "1.prems" show ?thesis by (simp add: for_loop_done)
  next
    case True
    from "1.prems"(3)[OF _ True "1.prems"(1)]
    consider e where "body1 i s = Inl e" "body2 i t = Inl e"
      | u' v' where "body1 i s = Inr u'" "body2 i t = Inr v'" "R (i + 1) u' v'"
      by auto
    then show ?thesis
    proof cases
      case 1
      with True show ?thesis by (simp add: for_loop_step)
    next
      case 2
      have "(\<exists>e. for_loop (i + 1) n body1 u' = Inl e \<and> for_loop (i + 1) n body2 v' = Inl e)
         \<or> (\<exists>s' t'. for_loop (i + 1) n body1 u' = Inr s' \<and> for_loop (i + 1) n body2 v' = Inr t'
               \<and> R n s' t')"
        by (rule "1.IH"[OF True 2(1) 2(3)]) (use True "1.prems"(3) in simp_all)
      with True 2 show ?thesis by (simp add: for_loop_step)
    qed
  qed
qed

lemma scan_while_stop: "\<not> k \<le> e \<Longrightarrow> scan_while f x brks l i e k st = Inr (k, st)"
  by (subst scan_while.simps) simp

lemma scan_while_no_x: "k \<le> e \<Longrightarrow> rd x k = Inl err \<Longrightarrow> scan_while f x brks l i e k st = Inl err"
  by (subst scan_while.simps) simp

lemma scan_while_no_lower:
  "k \<le> e \<Longrightarrow> rd x k = Inr xv \<Longrightarrow> rd brks i = Inl err
    \<Longrightarrow> scan_while f x brks l i e k st = Inl err"
  by (subst scan_while.simps) simp

lemma scan_while_below:
  "k \<le> e \<Longrightarrow> rd x k = Inr xv \<Longrightarrow> rd brks i = Inr lo \<Longrightarrow> \<not> dge xv lo
    \<Longrightarrow> scan_while f x brks l i e k st = scan_while f x brks l i e (k + 1) st"
  by (subst scan_while.simps) simp

lemma scan_while_no_upper:
  "k \<le> e \<Longrightarrow> rd x k = Inr xv \<Longrightarrow> rd brks i = Inr lo \<Longrightarrow> dge xv lo
    \<Longrightarrow> rd brks (i + 1) = Inl err \<Longrightarrow> scan_while f x brks l i e k st = Inl err"
  by (subst scan_while.simps) simp

lemma scan_while_break:
  "k \<le> e \<Longrightarrow> rd x k = Inr xv \<Longrightarrow> rd brks i = Inr lo \<Longrightarrow> dge xv lo
    \<Longrightarrow> rd brks (i + 1) = Inr hi \<Longrightarrow> \<not> (dlt xv hi \<or> (deq xv hi \<and> i = l))
    \<Longrightarrow> scan_while f x brks l i e k st = Inr (k, st)"
  by (subst scan_while.simps) auto

lemma scan_while_in_bin:
  "k \<le> e \<Longrightarrow> rd x k = Inr xv \<Longrightarrow> rd brks i = Inr lo \<Longrightarrow> dge xv lo
    \<Longrightarrow> rd brks (i + 1) = Inr hi \<Longrightarrow> dlt xv hi \<or> (deq xv hi \<and> i = l)
    \<Longrightarrow> scan_while f x brks l i e k st
        = ebind (f i k st) (\<lambda>st'. scan_while f x brks l i e (k + 1) st')"
  by (subst scan_while.simps) (auto simp: ebind_def)

lemma scan_while_rel:
  assumes "R st1 st2"
    and "\<And>m u v. R u v \<Longrightarrow>
           (\<exists>err. f i m u = Inl err \<and> g i m v = Inl err)
           \<or> (\<exists>u' v'. f i m u = Inr u' \<and> g i m v = Inr v' \<and> R u' v')"
  shows "(\<exists>err. scan_while f x brks l i e k st1 = Inl err
                \<and> scan_while g x brks l i e k st2 = Inl err)
         \<or> (\<exists>k' s' t'. scan_while f x brks l i e k st1 = Inr (k', s')
                \<and> scan_while g x brks l i e k st2 = Inr (k', t') \<and> R s' t')"
  using assms
proof (induction f x brks l i e k st1 arbitrary: st2 rule: scan_while.induct)
  case (1 f x brks l i e k st1)
  show ?case
  proof (cases "k \<le> e")
    case False
    then show ?thesis using "1.prems"(1) by (simp add: scan_while_stop)
  next
    case True
    show ?thesis
    proof (cases "rd x k")
      case (Inl err)
      with True show ?thesis by (simp add: scan_while_no_x)
    next
      case xv: (Inr xv)
      show ?thesis
      proof (cases "rd brks i")
        case (Inl err)
        with True xv show ?thesis by (simp add: scan_while_no_lower)
      next
        case lo: (Inr lo)
        show ?thesis
        proof (cases "dge xv lo")
          case False
          have "(\<exists>err. scan_while f x brks l i e (k + 1) st1 = Inl err
                   \<and> scan_while g x brks l i e (k + 1) st2 = Inl err)
             \<or> (\<exists>k' s' t'. scan_while f x brks l i e (k + 1) st1 = Inr (k', s')
                   \<and> scan_while g x brks l i e (k + 1) st2 = Inr (k', t') \<and> R s' t')"
            by (rule "1.IH"(2)[OF True xv lo False "1.prems"(1)]) (rule "1.prems"(2))
          then show ?thesis
            by (simp only: scan_while_below[OF True xv lo False])
        next
          case ge: True
          show ?thesis
          proof (cases "rd brks (i + 1)")
            case (Inl err)
            with True xv lo ge show ?thesis by (simp add: scan_while_no_upper)
          next
            case hi: (Inr hi)
            show ?thesis
            proof (cases "dlt xv hi \<or> (deq xv hi \<and> i = l)")
              case False
              show ?thesis
                using "1.prems"(1) by (simp add: scan_while_break[OF True xv lo ge hi False])
            next
              case inbin: True
              note step = scan_while_in_bin[OF True xv lo ge hi inbin]
              from "1.prems"(2)[OF "1.prems"(1), of k]
              consider err where "f i k st1 = Inl err" "g i k st2 = Inl err"
                | u' v' where "f i k st1 = Inr u'" "g i k st2 = Inr v'" "R u' v'"
                by auto
              then show ?thesis
              proof cases
                case 1
                then show ?thesis by (simp add: step)
              next
                case 2
                have "(\<exists>err. scan_while f x brks l i e (k + 1) u' = Inl err
                         \<and> scan_while g x brks l i e (k + 1) v' = Inl err)
                   \<or> (\<exists>k' s' t'. scan_while f x brks l i e (k + 1) u' = Inr (k', s')
                         \<and> scan_while g x brks l i e (k + 1) v' = Inr (k', t') \<and> R s' t')"
                  by (rule "1.IH"(1)[OF True xv lo ge hi inbin 2(1) 2(3)]) (rule "1.prems"(2))
                with 2 show ?thesis by (simp add: step)
              qed
            qed
          qed
        qed
      qed
    qed
  qed
qed

lemma mean_enter_rel:
  assumes "length e1 = length e2" and "\<forall>k. 0 \<le> k \<and> k < j \<longrightarrow> e1 ! nat k = e2 ! nat k"
  shows "(\<exists>err. mean_enter j (a, e1) = Inl err \<and> mean_enter j (a, e2) = Inl err)
         \<or> (\<exists>e1' e2'. mean_enter j (a, e1) = Inr (a, e1') \<and> mean_enter j (a, e2) = Inr (a, e2')
               \<and> length e1' = length e2'
               \<and> (\<forall>k. 0 \<le> k \<and> k < j + 1 \<longrightarrow> e1' ! nat k = e2' ! nat k))"
proof (cases "0 \<le> j \<and> j < int (length e1)")
  case False
  with assms(1) show ?thesis by (auto simp: mean_enter_def wr_def)
next
  case True
  then have nj: "nat j < length e1" "nat j < length e2"
    using assms(1) by (simp_all add: nat_less_iff)
  have "(e1[nat j := 0]) ! nat k = (e2[nat j := 0]) ! nat k" if "0 \<le> k \<and> k < j + 1" for k
  proof (cases "k = j")
    case True
    with nj show ?thesis by simp
  next
    case False
    with that True have "nat k \<noteq> nat j" "k < j" by auto
    with assms(2) that show ?thesis by simp
  qed
  with True assms(1) show ?thesis by (simp add: mean_enter_def wr_def)
qed

lemma mean_fold_rel:
  assumes "length e1 = length e2" and "\<forall>k. 0 \<le> k \<and> k < j + 1 \<longrightarrow> e1 ! nat k = e2 ! nat k"
  shows "(\<exists>err. mean_fold y j m (a, e1) = Inl err \<and> mean_fold y j m (a, e2) = Inl err)
         \<or> (\<exists>a' e1' e2'. mean_fold y j m (a, e1) = Inr (a', e1')
               \<and> mean_fold y j m (a, e2) = Inr (a', e2')
               \<and> length e1' = length e2'
               \<and> (\<forall>k. 0 \<le> k \<and> k < j + 1 \<longrightarrow> e1' ! nat k = e2' ! nat k))"
proof (cases "0 \<le> j \<and> j < int (length e1)")
  case False
  with assms show ?thesis
    by (auto simp: mean_fold_def ebind_def rd_def wr_def split: sum.splits option.splits)
next
  case True
  with assms(2) have ej: "e1 ! nat j = e2 ! nat j" by simp
  from True have nj: "nat j < length e1" "nat j < length e2"
    using assms(1) by (simp_all add: nat_less_iff)
  have upd: "(e1[nat j := c]) ! nat k = (e2[nat j := c]) ! nat k"
    if "0 \<le> k \<and> k < j + 1" for k c
  proof (cases "k = j")
    case kj: True
    with nj show ?thesis by simp
  next
    case False
    with that True have "nat k \<noteq> nat j" "k < j" by auto
    with assms(2) that show ?thesis by simp
  qed
  show ?thesis
    using True assms ej upd
    by (auto simp: mean_fold_def ebind_def rd_def wr_def split: sum.splits option.splits)
qed

lemma mean_divide_cong:
  assumes "length e1 = length e2" and "\<forall>k. 0 \<le> k \<and> k < n_bin \<longrightarrow> e1 ! nat k = e2 ! nat k"
  shows "mean_divide n_bin e1 a = mean_divide n_bin e2 a"
proof (cases "0 \<le> n_bin")
  case False
  then show ?thesis by (simp add: mean_divide_def for_loop_done)
next
  case True
  let ?b = "\<lambda>el i ans. ebind (rd el i)
          (\<lambda>c. if c > 0 then ebind (rd ans i) (\<lambda>a. wr ans i (dbl_div_int a c)) else Inr ans)"
  have "(\<exists>err. for_loop 0 n_bin (?b e1) a = Inl err \<and> for_loop 0 n_bin (?b e2) a = Inl err)
         \<or> (\<exists>s' t'. for_loop 0 n_bin (?b e1) a = Inr s' \<and> for_loop 0 n_bin (?b e2) a = Inr t'
               \<and> s' = t')"
  proof (rule for_loop_rel[where R = "\<lambda>j u v. u = v", OF refl True])
    fix j :: int and u v :: "dbl list"
    assume j: "0 \<le> j" "j < n_bin" and "u = v"
    from j assms have "rd e1 j = rd e2 j" by (simp add: rd_def)
    with \<open>u = v\<close> have "?b e1 j u = ?b e2 j v" by auto
    then show "(\<exists>e. ?b e1 j u = Inl e \<and> ?b e2 j v = Inl e)
           \<or> (\<exists>u' v'. ?b e1 j u = Inr u' \<and> ?b e2 j v = Inr v' \<and> u' = v')"
      by (cases "?b e2 j v") simp_all
  qed
  then show ?thesis by (auto simp: mean_divide_def)
qed

lemma el_count_start_irrelevant:
  assumes "length el1 = length el2"
  shows "ebind (scan_bins mean_enter (mean_fold y) x brks n_bin s e (ans, el1))
           (\<lambda>(x_current_idx, (ans, el_count)). mean_divide n_bin el_count ans)
         = ebind (scan_bins mean_enter (mean_fold y) x brks n_bin s e (ans, el2))
           (\<lambda>(x_current_idx, (ans, el_count)). mean_divide n_bin el_count ans)"
proof (cases "0 \<le> n_bin")
  case False
  then show ?thesis by (simp add: scan_bins_def for_loop_done mean_divide_def)
next
  case True
  let ?R = "\<lambda>j (u :: dbl list \<times> int list) (v :: dbl list \<times> int list).
              fst u = fst v \<and> length (snd u) = length (snd v)
              \<and> (\<forall>k. 0 \<le> k \<and> k < j \<longrightarrow> snd u ! nat k = snd v ! nat k)"
  let ?Ro = "\<lambda>j (p :: int \<times> dbl list \<times> int list) (q :: int \<times> dbl list \<times> int list).
              fst p = fst q \<and> ?R j (snd p) (snd q)"
  let ?body = "\<lambda>i (x_current_idx, st).
              ebind (mean_enter i st)
                (\<lambda>st. scan_while (mean_fold y) x brks (n_bin - 1) i e x_current_idx st)"
  have "(\<exists>err. for_loop 0 n_bin ?body (s, (ans, el1)) = Inl err
               \<and> for_loop 0 n_bin ?body (s, (ans, el2)) = Inl err)
        \<or> (\<exists>p q. for_loop 0 n_bin ?body (s, (ans, el1)) = Inr p
               \<and> for_loop 0 n_bin ?body (s, (ans, el2)) = Inr q \<and> ?Ro n_bin p q)"
  proof (rule for_loop_rel[where R = ?Ro, OF _ True])
    show "?Ro 0 (s, (ans, el1)) (s, (ans, el2))" using assms by simp
  next
    fix j :: int and p q :: "int \<times> dbl list \<times> int list"
    assume j: "0 \<le> j" "j < n_bin" and r: "?Ro j p q"
    obtain c a e1 where p: "p = (c, (a, e1))" by (cases p) auto
    from r p obtain e2 where q: "q = (c, (a, e2))" by (cases q) auto
    from r p q have l: "length e1 = length e2"
      and ag: "\<forall>k. 0 \<le> k \<and> k < j \<longrightarrow> e1 ! nat k = e2 ! nat k" by simp_all
    from mean_enter_rel[OF l ag, of a]
    consider err where "mean_enter j (a, e1) = Inl err" "mean_enter j (a, e2) = Inl err"
      | e1' e2' where "mean_enter j (a, e1) = Inr (a, e1')" "mean_enter j (a, e2) = Inr (a, e2')"
          "length e1' = length e2'" "\<forall>k. 0 \<le> k \<and> k < j + 1 \<longrightarrow> e1' ! nat k = e2' ! nat k"
      by blast
    then show "(\<exists>err. ?body j p = Inl err \<and> ?body j q = Inl err)
           \<or> (\<exists>u' v'. ?body j p = Inr u' \<and> ?body j q = Inr v' \<and> ?Ro (j + 1) u' v')"
    proof cases
      case 1
      with p q show ?thesis by simp
    next
      case 2
      have "(\<exists>err. scan_while (mean_fold y) x brks (n_bin - 1) j e c (a, e1') = Inl err
                \<and> scan_while (mean_fold y) x brks (n_bin - 1) j e c (a, e2') = Inl err)
         \<or> (\<exists>k' s' t'. scan_while (mean_fold y) x brks (n_bin - 1) j e c (a, e1') = Inr (k', s')
                \<and> scan_while (mean_fold y) x brks (n_bin - 1) j e c (a, e2') = Inr (k', t')
                \<and> ?R (j + 1) s' t')"
      proof (rule scan_while_rel[where R = "?R (j + 1)"])
        show "?R (j + 1) (a, e1') (a, e2')" using 2 by simp
      next
        fix m and u v :: "dbl list \<times> int list"
        assume uv: "?R (j + 1) u v"
        obtain ua ue where u: "u = (ua, ue)" by (cases u)
        from uv u obtain ve where v: "v = (ua, ve)" by (cases v) auto
        from uv u v have "length ue = length ve"
          "\<forall>k. 0 \<le> k \<and> k < j + 1 \<longrightarrow> ue ! nat k = ve ! nat k" by simp_all
        from mean_fold_rel[OF this, of y m ua] u v
        show "(\<exists>err. mean_fold y j m u = Inl err \<and> mean_fold y j m v = Inl err)
           \<or> (\<exists>u' v'. mean_fold y j m u = Inr u' \<and> mean_fold y j m v = Inr v'
                 \<and> ?R (j + 1) u' v')"
          by auto
      qed
      with 2 p q show ?thesis by auto
    qed
  qed
  then consider err where "for_loop 0 n_bin ?body (s, (ans, el1)) = Inl err"
      "for_loop 0 n_bin ?body (s, (ans, el2)) = Inl err"
    | c a e1 e2 where "for_loop 0 n_bin ?body (s, (ans, el1)) = Inr (c, (a, e1))"
      "for_loop 0 n_bin ?body (s, (ans, el2)) = Inr (c, (a, e2))"
      "length e1 = length e2" "\<forall>k. 0 \<le> k \<and> k < n_bin \<longrightarrow> e1 ! nat k = e2 ! nat k"
    by (auto simp: prod_eq_iff)
  then show ?thesis
  proof cases
    case 1
    then show ?thesis by (simp add: scan_bins_def Let_def)
  next
    case 2
    with mean_divide_cong[OF 2(3,4)] show ?thesis by (simp add: scan_bins_def Let_def)
  qed
qed


text \<open>A counter of the mean is positive only when a value has been stored in its bin:
  the division of lines 428-431 never meets a missing value.\<close>

lemma counted_bin_has_value:
  assumes "scan_bins mean_enter (mean_fold y) x brks n_bin s e (ans, replicate (nat n_bin) 0)
             = Inr (k', (a, el))"
  shows "\<forall>i. 0 \<le> i \<and> i < n_bin \<and> el ! nat i > 0 \<longrightarrow> a ! nat i \<noteq> NA_REAL"
proof -
  let ?Q = "\<lambda>st :: dbl list \<times> int list.
              \<forall>i. 0 \<le> i \<and> i < n_bin \<and> snd st ! nat i > 0 \<longrightarrow> fst st ! nat i \<noteq> NA_REAL"
  have "?Q (a, el)"
  proof (rule scan_bins_preserves[where Q = ?Q, OF assms])
    show "?Q (ans, replicate (nat n_bin) 0)" by (auto simp: nat_less_iff)
  next
    fix j :: int and u v :: "dbl list \<times> int list"
    assume q: "?Q u" and b: "mean_enter j u = Inr v"
    obtain a0 e0 where u: "u = (a0, e0)" by (cases u)
    from b u obtain e1 where v: "v = (a0, e1)" and w: "wr e0 j 0 = Inr e1"
      by (auto simp: mean_enter_def ebind_eq_Inr)
    show "?Q v"
    proof (intro allI impI)
      fix i assume i: "0 \<le> i \<and> i < n_bin \<and> snd v ! nat i > 0"
      with v w have "i \<noteq> j" by (auto simp: wr_eq_Inr)
      with i v w have "e0 ! nat i > 0" by (auto simp: wr_eq_Inr)
      with q u i v show "fst v ! nat i \<noteq> NA_REAL" by simp
    qed
  next
    fix j m :: int and u v :: "dbl list \<times> int list"
    assume q: "?Q u" and b: "mean_fold y j m u = Inr v"
    obtain a0 e0 where u: "u = (a0, e0)" by (cases u)
    obtain a1 e1 where v: "v = (a1, e1)" by (cases v)
    show "?Q v"
    proof (intro allI impI)
      fix i assume i: "0 \<le> i \<and> i < n_bin \<and> snd v ! nat i > 0"
      show "fst v ! nat i \<noteq> NA_REAL"
      proof (cases "i = j")
        case True
        show ?thesis
        proof (cases "rd y m = Inr NA_REAL")
          case na: True
          from mean_fold_NA[OF na, of j u] b have "v = u" by simp
          with q i show ?thesis by simp
        next
          case False
          with b u v True show ?thesis
            by (auto simp: mean_fold_def ebind_def rd_def wr_eq_Inr nat_less_iff
                split: sum.splits option.splits if_splits)
        qed
      next
        case False
        from b u v have "mean_fold y j m (a0, e0) = Inr (a1, e1)" by simp
        from mean_fold_other[OF this _ False[symmetric]] i
        have "a1 ! nat i = a0 ! nat i" "e1 ! nat i = e0 ! nat i" by simp_all
        with q u v i show ?thesis by simp
      qed
    qed
  qed
  then show ?thesis by simp
qed

subsection \<open>Every sample of a bin is assigned to it, once\<close>

lemma ascendingD:
  "ascending v s e \<Longrightarrow> s \<le> m \<Longrightarrow> m \<le> m' \<Longrightarrow> m' \<le> e \<Longrightarrow> dle (v ! nat m) (v ! nat m')"
  by (auto simp: ascending_def)

lemma samples_append: "samples (evs1 @ evs2) = samples evs1 @ samples evs2"
  by (induction evs1 rule: samples.induct) simp_all

lemma scan_while_complete:
  assumes "scan_while record_sample x brks l i e k tr = Inr (k', tr')"
  shows "k \<le> k' \<and> k' \<le> max k (e + 1) \<and> set tr \<subseteq> set tr'
     \<and> (\<forall>m. k \<le> m \<and> m < k'
           \<longrightarrow> \<not> dge (x ! nat m) (brks ! nat i)
               \<or> (Sample i m \<in> set tr'
                   \<and> (dlt (x ! nat m) (brks ! nat (i + 1))
                        \<or> (deq (x ! nat m) (brks ! nat (i + 1)) \<and> i = l))))
     \<and> (k' \<le> e \<longrightarrow> dge (x ! nat k') (brks ! nat i)
           \<and> \<not> (dlt (x ! nat k') (brks ! nat (i + 1))
                  \<or> (deq (x ! nat k') (brks ! nat (i + 1)) \<and> i = l)))"
  using assms
proof (induction "record_sample" x brks l i e k tr rule: scan_while.induct)
  case (1 x brks l i e k tr)
  note run = "1.prems"[unfolded scan_while.simps[of record_sample x brks l i e k tr]]
  show ?case
  proof (cases "k \<le> e")
    case False
    with run show ?thesis by auto
  next
    case True
    with run obtain xv lo where xv: "rd x k = Inr xv" and lo: "rd brks i = Inr lo"
      by (auto split: sum.splits)
    from xv lo have xk: "xv = x ! nat k" and bi: "lo = brks ! nat i"
      by (simp_all add: rd_eq_Inr)
    show ?thesis
    proof (cases "dge xv lo")
      case False
      with True xv lo run
      have r: "scan_while record_sample x brks l i e (k + 1) tr = Inr (k', tr')" by simp
      note ih = "1.hyps"(2)[OF True xv lo False r]
      have "\<not> dge (x ! nat m) (brks ! nat i)
               \<or> (Sample i m \<in> set tr'
                   \<and> (dlt (x ! nat m) (brks ! nat (i + 1))
                        \<or> (deq (x ! nat m) (brks ! nat (i + 1)) \<and> i = l)))"
        if "k \<le> m \<and> m < k'" for m
      proof (cases "m = k")
        case mk: True
        with False xk bi show ?thesis by simp
      next
        case mk: False
        with that have "k + 1 \<le> m \<and> m < k'" by simp
        with ih show ?thesis by blast
      qed
      with ih True show ?thesis by auto
    next
      case ge: True
      with True xv lo run obtain hi where hi: "rd brks (i + 1) = Inr hi"
        by (auto split: sum.splits)
      from hi have bh: "hi = brks ! nat (i + 1)" by (simp add: rd_eq_Inr)
      show ?thesis
      proof (cases "dlt xv hi \<or> (deq xv hi \<and> i = l)")
        case False
        with True xv lo ge hi run have "k' = k" "tr' = tr" by auto
        with True False ge xk bi bh show ?thesis by auto
      next
        case inbin: True
        have rs: "record_sample i k tr = Inr (tr @ [Sample i k])"
          by (simp add: record_sample_def)
        with True xv lo ge hi inbin run
        have r: "scan_while record_sample x brks l i e (k + 1) (tr @ [Sample i k]) = Inr (k', tr')"
          by auto
        note ih = "1.hyps"(1)[OF True xv lo ge hi inbin rs r]
        from ih inbin xk bh have here: "Sample i k \<in> set tr'
                   \<and> (dlt (x ! nat k) (brks ! nat (i + 1))
                        \<or> (deq (x ! nat k) (brks ! nat (i + 1)) \<and> i = l))" by auto
        have "\<not> dge (x ! nat m) (brks ! nat i)
               \<or> (Sample i m \<in> set tr'
                   \<and> (dlt (x ! nat m) (brks ! nat (i + 1))
                        \<or> (deq (x ! nat m) (brks ! nat (i + 1)) \<and> i = l)))"
          if "k \<le> m \<and> m < k'" for m
        proof (cases "m = k")
          case mk: True
          with here show ?thesis by simp
        next
          case mk: False
          with that have "k + 1 \<le> m \<and> m < k'" by simp
          with ih show ?thesis by blast
        qed
        with ih True show ?thesis by auto
      qed
    qed
  qed
qed

lemma scan_while_forward:
  assumes "scan_while record_sample x brks l i e k tr = Inr (k', tr')"
    and "sorted_wrt (<) (samples tr)" and "\<forall>m \<in> set (samples tr). m < k"
  shows "sorted_wrt (<) (samples tr') \<and> (\<forall>m \<in> set (samples tr'). m < k')"
  using assms
proof (induction "record_sample" x brks l i e k tr rule: scan_while.induct)
  case (1 x brks l i e k tr)
  note run = "1.prems"(1)[unfolded scan_while.simps[of record_sample x brks l i e k tr]]
  show ?case
  proof (cases "k \<le> e")
    case False
    with run "1.prems"(2,3) show ?thesis by auto
  next
    case True
    with run obtain xv lo where xv: "rd x k = Inr xv" and lo: "rd brks i = Inr lo"
      by (auto split: sum.splits)
    show ?thesis
    proof (cases "dge xv lo")
      case False
      with True xv lo run
      have r: "scan_while record_sample x brks l i e (k + 1) tr = Inr (k', tr')" by simp
      have "\<forall>m \<in> set (samples tr). m < k + 1" using "1.prems"(3) by auto
      from "1.hyps"(2)[OF True xv lo False r "1.prems"(2) this] show ?thesis .
    next
      case ge: True
      with True xv lo run obtain hi where hi: "rd brks (i + 1) = Inr hi"
        by (auto split: sum.splits)
      show ?thesis
      proof (cases "dlt xv hi \<or> (deq xv hi \<and> i = l)")
        case False
        with True xv lo ge hi run have "k' = k" "tr' = tr" by auto
        with "1.prems"(2,3) show ?thesis by simp
      next
        case inbin: True
        have rs: "record_sample i k tr = Inr (tr @ [Sample i k])"
          by (simp add: record_sample_def)
        with True xv lo ge hi inbin run
        have r: "scan_while record_sample x brks l i e (k + 1) (tr @ [Sample i k]) = Inr (k', tr')"
          by auto
        have a: "sorted_wrt (<) (samples (tr @ [Sample i k]))"
          using "1.prems"(2,3) by (simp add: samples_append sorted_wrt_append)
        have b: "\<forall>m \<in> set (samples (tr @ [Sample i k])). m < k + 1"
          using "1.prems"(3) by (auto simp: samples_append)
        from "1.hyps"(1)[OF True xv lo ge hi inbin rs r a b] show ?thesis .
      qed
    qed
  qed
qed

lemma assignment_forward:
  assumes "assignment x brks n_bin s e = Inr evs"
  shows "sorted_wrt (<) (samples evs)"
proof -
  let ?Q = "\<lambda>p :: int \<times> event list. sorted_wrt (<) (samples (snd p))
              \<and> (\<forall>m \<in> set (samples (snd p)). m < fst p)"
  from assms obtain k' where
    run: "for_loop 0 n_bin
           (\<lambda>i (x_current_idx, st).
              ebind (record_enter i st)
                (\<lambda>st. scan_while record_sample x brks (n_bin - 1) i e x_current_idx st))
           (s, []) = Inr (k', evs)"
    by (auto simp: assignment_def scan_bins_def Let_def ebind_eq_Inr)
  have "?Q (k', evs)"
  proof (rule for_loop_preserves[where Q = ?Q, OF run])
    show "?Q (s, [])" by simp
  next
    fix j :: int and u v :: "int \<times> event list"
    assume q: "?Q u"
      and b: "(case u of (x_current_idx, st) \<Rightarrow>
              ebind (record_enter j st)
                (\<lambda>st. scan_while record_sample x brks (n_bin - 1) j e x_current_idx st)) = Inr v"
    obtain c tr where u: "u = (c, tr)" by (cases u)
    obtain c' tr' where v: "v = (c', tr')" by (cases v)
    from b u v have
      w: "scan_while record_sample x brks (n_bin - 1) j e c (tr @ [Enter j]) = Inr (c', tr')"
      by (simp add: record_enter_def)
    have "sorted_wrt (<) (samples (tr @ [Enter j]))"
      "\<forall>m \<in> set (samples (tr @ [Enter j])). m < c"
      using q u by (simp_all add: samples_append)
    from scan_while_forward[OF w this] v show "?Q v" by simp
  qed
  then show ?thesis by simp
qed

lemma assignment_complete:
  assumes asg: "assignment x brks n_bin s e = Inr evs"
    and xs: "ascending x s e" and bs: "ascending brks 0 n_bin"
    and k: "s \<le> k" "k \<le> e" and ib: "in_bin brks n_bin i (x ! nat k)"
  shows "Sample i k \<in> set evs"
proof -
  let ?P = "\<lambda>j (p :: int \<times> event list). s \<le> fst p
      \<and> (\<forall>m i'. s \<le> m \<and> m < fst p \<and> m \<le> e \<and> in_bin brks n_bin i' (x ! nat m)
            \<longrightarrow> Sample i' m \<in> set (snd p))
      \<and> (\<forall>m i'. fst p \<le> m \<and> m \<le> e \<and> i' < j \<longrightarrow> \<not> in_bin brks n_bin i' (x ! nat m))"
  from ib have n: "0 \<le> n_bin" and i: "0 \<le> i" "i < n_bin" by (auto simp: in_bin_def)
  from asg obtain k' where
    run: "for_loop 0 n_bin
           (\<lambda>i (x_current_idx, st).
              ebind (record_enter i st)
                (\<lambda>st. scan_while record_sample x brks (n_bin - 1) i e x_current_idx st))
           (s, []) = Inr (k', evs)"
    by (auto simp: assignment_def scan_bins_def Let_def ebind_eq_Inr)
  have "?P n_bin (k', evs)"
  proof (rule for_loop_invariant[where P = ?P, OF run _ n])
    show "?P 0 (s, [])" by (auto simp: in_bin_def)
  next
    fix j :: int and u v :: "int \<times> event list"
    assume j: "0 \<le> j" "j < n_bin" and p: "?P j u"
      and b: "(case u of (x_current_idx, st) \<Rightarrow>
              ebind (record_enter j st)
                (\<lambda>st. scan_while record_sample x brks (n_bin - 1) j e x_current_idx st)) = Inr v"
    obtain c tr where u: "u = (c, tr)" by (cases u)
    obtain c' tr' where v: "v = (c', tr')" by (cases v)
    from b u v have
      w: "scan_while record_sample x brks (n_bin - 1) j e c (tr @ [Enter j]) = Inr (c', tr')"
      by (simp add: record_enter_def)
    note cm = scan_while_complete[OF w]
    from p u have sc: "s \<le> c" by simp
    from cm have cc: "c \<le> c'" and sub: "set tr \<subseteq> set tr'" by auto
    have A: "Sample i' m \<in> set tr'"
      if m: "s \<le> m" "m < c'" "m \<le> e" and mb: "in_bin brks n_bin i' (x ! nat m)" for m i'
    proof (cases "m < c")
      case True
      with p u m mb have "Sample i' m \<in> set tr" by simp
      with sub show ?thesis by blast
    next
      case False
      then have cm': "c \<le> m" by simp
      from mb have i': "0 \<le> i'" "i' < n_bin" and lo': "dle (brks ! nat i') (x ! nat m)"
        by (auto simp: in_bin_def)
      from p u cm' m have nj: "\<not> i' < j" using mb by auto
      from cm cm' m consider (skip) "\<not> dge (x ! nat m) (brks ! nat j)"
        | (rec) "Sample j m \<in> set tr'"
            "dlt (x ! nat m) (brks ! nat (j + 1))
               \<or> (deq (x ! nat m) (brks ! nat (j + 1)) \<and> j = n_bin - 1)"
        by blast
      then show ?thesis
      proof cases
        case skip
        from nj i' j have "dle (brks ! nat j) (brks ! nat i')"
          by (intro ascendingD[OF bs]) simp_all
        from this lo' have "dle (brks ! nat j) (x ! nat m)" by (rule dle_trans)
        with skip show ?thesis by (simp add: dge_def)
      next
        case rec
        have "i' = j"
        proof (rule ccontr)
          assume ne: "i' \<noteq> j"
          with nj have gt: "j + 1 \<le> i'" by simp
          with rec(2) i' have "dlt (x ! nat m) (brks ! nat (j + 1))" by auto
          moreover have "dle (brks ! nat (j + 1)) (brks ! nat i')"
            using gt i' j by (intro ascendingD[OF bs]) simp_all
          ultimately have "dlt (x ! nat m) (brks ! nat i')" by (rule dlt_dle_trans)
          with lo' show False using dle_not_dlt by blast
        qed
        with rec show ?thesis by simp
      qed
    qed
    have B: "\<not> in_bin brks n_bin i' (x ! nat m)"
      if m: "c' \<le> m" "m \<le> e" and i': "i' < j + 1" for m i'
    proof (cases "i' < j")
      case True
      with p u m cc show ?thesis by simp
    next
      case False
      with i' have ij: "i' = j" by simp
      from m have "c' \<le> e" by simp
      with cm have stop: "\<not> (dlt (x ! nat c') (brks ! nat (j + 1))
                  \<or> (deq (x ! nat c') (brks ! nat (j + 1)) \<and> j = n_bin - 1))" by blast
      have le: "dle (x ! nat c') (x ! nat m)"
        using sc cc m by (intro ascendingD[OF xs]) simp_all
      show ?thesis
      proof
        assume "in_bin brks n_bin i' (x ! nat m)"
        with ij have "in_bin brks n_bin j (x ! nat m)" by simp
        then have up: "if j = n_bin - 1 then dle (x ! nat m) (brks ! nat (j + 1))
                          else dlt (x ! nat m) (brks ! nat (j + 1))"
          unfolding in_bin_def by blast
        show False
        proof (cases "j = n_bin - 1")
          case True
          with up have "dle (x ! nat m) (brks ! nat (j + 1))" by simp
          from le this have "dle (x ! nat c') (brks ! nat (j + 1))" by (rule dle_trans)
          with stop True show False by (simp add: dle_def)
        next
          case False
          with up have "dlt (x ! nat m) (brks ! nat (j + 1))" by simp
          from le this have "dlt (x ! nat c') (brks ! nat (j + 1))" by (rule dle_dlt_trans)
          with stop show False by simp
        qed
      qed
    qed
    from A B sc cc v show "?P (j + 1) v" by auto
  qed
  then have A: "\<And>m i'. s \<le> m \<and> m < k' \<and> m \<le> e \<and> in_bin brks n_bin i' (x ! nat m)
            \<Longrightarrow> Sample i' m \<in> set evs"
    and B: "\<And>m i'. k' \<le> m \<and> m \<le> e \<and> i' < n_bin \<Longrightarrow> \<not> in_bin brks n_bin i' (x ! nat m)"
    by auto
  show ?thesis
  proof (cases "k < k'")
    case True
    with A[of k i] k ib show ?thesis by simp
  next
    case False
    with B[of k i] k i ib show ?thesis by simp
  qed
qed

subsection \<open>A bin with a sample that is not missing has a value\<close>

lemma replay_value:
  assumes "replay enter f st evs = Inr st'"
    and "V st \<or> Sample i k \<in> set evs"
    and "\<And>a a'. f i k a = Inr a' \<Longrightarrow> V a'"
    and "\<And>j m a a'. V a \<Longrightarrow> f j m a = Inr a' \<Longrightarrow> V a'"
    and "\<And>j a a'. V a \<Longrightarrow> enter j a = Inr a' \<Longrightarrow> V a'"
  shows "V st'"
  using assms(1,2)
proof (induction evs arbitrary: st)
  case Nil
  then show ?case by simp
next
  case (Cons ev evs)
  show ?case
  proof (cases ev)
    case (Enter j)
    with Cons.prems(1) obtain st1 where e: "enter j st = Inr st1"
      and r: "replay enter f st1 evs = Inr st'"
      by (auto split: sum.splits)
    from Cons.prems(2) Enter assms(5)[OF _ e] have "V st1 \<or> Sample i k \<in> set evs" by auto
    from Cons.IH[OF r this] show ?thesis .
  next
    case (Sample j m)
    with Cons.prems(1) obtain st1 where e: "f j m st = Inr st1"
      and r: "replay enter f st1 evs = Inr st'"
      by (auto split: sum.splits)
    have "V st1 \<or> Sample i k \<in> set evs"
    proof (cases "Sample i k \<in> set evs")
      case True
      then show ?thesis ..
    next
      case False
      with Cons.prems(2) Sample consider "V st" | "j = i" "m = k" by auto
      then have "V st1"
      proof cases
        case 1
        from assms(4)[OF this e] show ?thesis .
      next
        case 2
        with assms(3)[of st st1] e show ?thesis by simp
      qed
      then show ?thesis ..
    qed
    from Cons.IH[OF r this] show ?thesis .
  qed
qed

lemma max_fold_value:
  "max_fold y i k a = Inr a' \<Longrightarrow> rd y k = Inr (Some v) \<Longrightarrow> a' ! nat i \<noteq> NA_REAL"
  by (auto simp: max_fold_def ebind_def rd_def wr_eq_Inr nat_less_iff
      split: sum.splits option.splits if_splits)

lemma min_fold_value:
  "min_fold y i k a = Inr a' \<Longrightarrow> rd y k = Inr (Some v) \<Longrightarrow> a' ! nat i \<noteq> NA_REAL"
  by (auto simp: min_fold_def ebind_def rd_def wr_eq_Inr nat_less_iff
      split: sum.splits option.splits if_splits)

lemma sum_fold_value:
  "sum_fold y i k a = Inr a' \<Longrightarrow> rd y k = Inr (Some v) \<Longrightarrow> a' ! nat i \<noteq> NA_REAL"
  by (auto simp: sum_fold_def ebind_def rd_def wr_eq_Inr nat_less_iff
      split: sum.splits option.splits if_splits)

lemma mean_fold_value:
  "mean_fold y i k (a, el) = Inr (a', el') \<Longrightarrow> rd y k = Inr (Some v)
     \<Longrightarrow> a' ! nat i \<noteq> NA_REAL"
  by (auto simp: mean_fold_def ebind_def rd_def wr_eq_Inr nat_less_iff
      split: sum.splits option.splits if_splits)

lemma max_fold_keeps_value:
  "max_fold y j m a = Inr a' \<Longrightarrow> a ! nat i \<noteq> NA_REAL \<Longrightarrow> a' ! nat i \<noteq> NA_REAL"
  by (auto simp: max_fold_def ebind_def rd_eq_Inr wr_eq_Inr nth_list_update
      split: sum.splits option.splits if_splits)

lemma min_fold_keeps_value:
  "min_fold y j m a = Inr a' \<Longrightarrow> a ! nat i \<noteq> NA_REAL \<Longrightarrow> a' ! nat i \<noteq> NA_REAL"
  by (auto simp: min_fold_def ebind_def rd_eq_Inr wr_eq_Inr nth_list_update
      split: sum.splits option.splits if_splits)

lemma sum_fold_keeps_value:
  "sum_fold y j m a = Inr a' \<Longrightarrow> a ! nat i \<noteq> NA_REAL \<Longrightarrow> a' ! nat i \<noteq> NA_REAL"
  by (auto simp: sum_fold_def ebind_def rd_eq_Inr wr_eq_Inr nth_list_update
      split: sum.splits option.splits if_splits)

lemma mean_fold_keeps_value:
  "mean_fold y j m (a, el) = Inr (a', el') \<Longrightarrow> a ! nat i \<noteq> NA_REAL
     \<Longrightarrow> a' ! nat i \<noteq> NA_REAL"
  by (auto simp: mean_fold_def ebind_def rd_eq_Inr wr_eq_Inr nth_list_update
      split: sum.splits option.splits if_splits)

lemma switch_value:
  assumes sw: "binYonX_switch the_method x y brks ans n_bin s e = Inr ans'"
    and asg: "assignment x brks n_bin s e = Inr evs"
    and ev: "Sample i k \<in> set evs" and yk: "rd y k = Inr (Some v)"
  shows "ans' ! nat i \<noteq> NA_REAL"
proof -
  from assignment_sound[OF asg ev] have i: "0 \<le> i" "i < n_bin" by (auto simp: in_bin_def)
  from scan_bins_replay[OF asg] obtain k' where
    rp: "\<And>enter f st. scan_bins enter f x brks n_bin s e (st :: dbl list)
           = ebind (replay enter f st evs) (\<lambda>st'. Inr (k', st'))"
    by blast
  from scan_bins_replay[OF asg] obtain k'' where
    rpm: "\<And>enter f st. scan_bins enter f x brks n_bin s e (st :: dbl list \<times> int list)
           = ebind (replay enter f st evs) (\<lambda>st'. Inr (k'', st'))"
    by blast
  let ?V = "\<lambda>a :: dbl list. a ! nat i \<noteq> NA_REAL"
  consider (mn) "the_method = 2" | (sm) "the_method = 3" | (me) "the_method = 4"
    | (mx) "the_method \<noteq> 2" "the_method \<noteq> 3" "the_method \<noteq> 4" by blast
  then show ?thesis
  proof cases
    case mx
    with sw have r: "replay no_enter (max_fold y) ans evs = Inr ans'"
      by (auto simp: binYonX_switch_def bin_y_on_x_with_breaks_max_def rp ebind_eq_Inr)
    show ?thesis
      by (rule replay_value[where V = ?V, OF r disjI2[OF ev]])
         (auto simp: no_enter_def dest: max_fold_value[OF _ yk] max_fold_keeps_value)
  next
    case mn
    with sw have r: "replay no_enter (min_fold y) ans evs = Inr ans'"
      by (auto simp: binYonX_switch_def bin_y_on_x_with_breaks_min_def rp ebind_eq_Inr)
    show ?thesis
      by (rule replay_value[where V = ?V, OF r disjI2[OF ev]])
         (auto simp: no_enter_def dest: min_fold_value[OF _ yk] min_fold_keeps_value)
  next
    case sm
    with sw have r: "replay no_enter (sum_fold y) ans evs = Inr ans'"
      by (auto simp: binYonX_switch_def bin_y_on_x_with_breaks_sum_def rp ebind_eq_Inr)
    show ?thesis
      by (rule replay_value[where V = ?V, OF r disjI2[OF ev]])
         (auto simp: no_enter_def dest: sum_fold_value[OF _ yk] sum_fold_keeps_value)
  next
    case me
    with sw obtain a el where
      r: "replay mean_enter (mean_fold y) (ans, replicate (nat n_bin) 0) evs = Inr (a, el)"
      and d: "mean_divide n_bin el a = Inr ans'"
      by (auto simp: binYonX_switch_def bin_y_on_x_with_breaks_mean_def rpm ebind_eq_Inr
          Let_def split: if_splits)
    have "?V (fst (a, el))"
    proof (rule replay_value[where V = "\<lambda>st. ?V (fst st)", OF r disjI2[OF ev]])
      fix a0 a1 :: "dbl list \<times> int list"
      assume "mean_fold y i k a0 = Inr a1"
      then have "mean_fold y i k (fst a0, snd a0) = Inr (fst a1, snd a1)" by simp
      from mean_fold_value[OF this yk] show "?V (fst a1)" .
    next
      fix j m :: int and a0 a1 :: "dbl list \<times> int list"
      assume v: "?V (fst a0)" and "mean_fold y j m a0 = Inr a1"
      then have "mean_fold y j m (fst a0, snd a0) = Inr (fst a1, snd a1)" by simp
      from mean_fold_keeps_value[OF this v] show "?V (fst a1)" .
    next
      fix j :: int and a0 a1 :: "dbl list \<times> int list"
      assume "?V (fst a0)" "mean_enter j a0 = Inr a1"
      then show "?V (fst a1)" by (cases a0) (auto simp: mean_enter_def ebind_eq_Inr)
    qed
    then have "a ! nat i \<noteq> NA_REAL" by simp
    moreover from mean_divide_result[OF d] i
    have "ans' ! nat i = (if el ! nat i > 0 then dbl_div_int (a ! nat i) (el ! nat i)
                          else a ! nat i)" by simp
    ultimately show ?thesis by (auto simp: dbl_div_int_def split: option.splits)
  qed
qed

lemma binYonX_value:
  assumes run: "binYonX x y breaks nBins binSize fromX toX fromIdx toIdx shiftByHalfBinSize
             initValue method = Inr (bin_mids, ans)"
    and br: "binYonX_breaks breaks nBins binSize fromX toX shiftByHalfBinSize = Inr (n_bin, brks)"
    and asg: "assignment x brks n_bin fromIdx toIdx = Inr evs"
    and ev: "Sample i k \<in> set evs" and yk: "rd y k = Inr (Some v)"
  shows "ans ! nat i \<noteq> NA_REAL"
proof -
  from run br obtain a0 a1 a2 where
    a0: "allocVector NA_REAL n_bin = Inr a0"
    and a1: "for_loop 0 n_bin (\<lambda>i p_ans. wr p_ans i NA_REAL) a0 = Inr a1"
    and a2: "binYonX_switch method x y brks a1 n_bin fromIdx toIdx = Inr a2"
    and a3: "(if \<not> ISNA initValue
                  then for_loop 0 n_bin
                         (\<lambda>i p_ans. ebind (rd p_ans i)
                            (\<lambda>a. if ISNA a then wr p_ans i initValue else Inr p_ans))
                         a2
                  else Inr a2) = Inr ans"
    by (auto simp: binYonX_def ebind_eq_Inr split: if_splits)
  from assignment_sound[OF asg ev] have i: "0 \<le> i" "i < n_bin" by (auto simp: in_bin_def)
  then have n: "0 \<le> n_bin" by simp
  from switch_value[OF a2 asg ev yk] have m: "a2 ! nat i \<noteq> NA_REAL" .
  show ?thesis
  proof (cases "ISNA initValue")
    case True
    with a3 m show ?thesis by simp
  next
    case False
    with a3 have "for_loop 0 n_bin
                         (\<lambda>i p_ans. ebind (rd p_ans i)
                            (\<lambda>a. if ISNA a then wr p_ans i initValue else Inr p_ans))
                         a2 = Inr ans" by simp
    from default_loop_result[OF this n] i m False show ?thesis by (simp add: ISNA_def)
  qed
qed

subsection \<open>Calls that return, and what they return\<close>

lemma binYonX_shape:
  assumes "binYonX x y breaks nBins binSize fromX toX fromIdx toIdx shiftByHalfBinSize
             initValue method = Inr (bin_mids, ans)"
  shows "\<exists>n_bin brks.
           binYonX_breaks breaks nBins binSize fromX toX shiftByHalfBinSize = Inr (n_bin, brks)
           \<and> length brks = length bin_mids + 1
           \<and> length bin_mids = nat n_bin
           \<and> length ans = nat n_bin
           \<and> (\<forall>i < length bin_mids.
                 bin_mids ! i = ddiv (dadd (brks ! i) (brks ! (i + 1))) (Fin 2))"
proof -
  from assms have
    "ebind (binYonX_breaks breaks nBins binSize fromX toX shiftByHalfBinSize)
             (\<lambda>(n_bin, p_brks).
           ebind (allocVector NA_REAL n_bin)
             (\<lambda>ans.
           ebind (for_loop 0 n_bin (\<lambda>i p_ans. wr p_ans i NA_REAL) ans)
             (\<lambda>p_ans.
           ebind (binYonX_switch method x y p_brks p_ans n_bin fromIdx toIdx)
             (\<lambda>p_ans.
           ebind (if \<not> ISNA initValue
                  then for_loop 0 n_bin
                         (\<lambda>i p_ans. ebind (rd p_ans i)
                            (\<lambda>a. if ISNA a then wr p_ans i initValue else Inr p_ans))
                         p_ans
                  else Inr p_ans)
             (\<lambda>p_ans.
           ebind (allocVector (Fin 0) n_bin)
             (\<lambda>bin_mids.
           ebind (bin_midPoint p_brks bin_mids n_bin)
             (\<lambda>bin_mids. Inr (bin_mids, p_ans)))))))) = Inr (bin_mids, ans)"
    by (simp add: binYonX_def split: if_splits)
  then obtain n_bin brks a0 a1 a2 m0 where
    br: "binYonX_breaks breaks nBins binSize fromX toX shiftByHalfBinSize = Inr (n_bin, brks)"
    and a0: "allocVector NA_REAL n_bin = Inr a0"
    and a1: "for_loop 0 n_bin (\<lambda>i p_ans. wr p_ans i NA_REAL) a0 = Inr a1"
    and a2: "binYonX_switch method x y brks a1 n_bin fromIdx toIdx = Inr a2"
    and a3: "(if \<not> ISNA initValue
                  then for_loop 0 n_bin
                         (\<lambda>i p_ans. ebind (rd p_ans i)
                            (\<lambda>a. if ISNA a then wr p_ans i initValue else Inr p_ans))
                         a2
                  else Inr a2) = Inr ans"
    and m0: "allocVector (Fin 0) n_bin = Inr m0"
    and m: "bin_midPoint brks m0 n_bin = Inr bin_mids"
    by (auto simp: ebind_eq_Inr)
  from binYonX_breaks_shape[OF br] have n: "0 \<le> n_bin" and lb: "int (length brks) = n_bin + 1"
    by simp_all
  from a0 have la0: "length a0 = nat n_bin" by (auto simp: allocVector_eq_Inr)
  have la1: "length a1 = length a0"
    by (rule for_loop_preserves[where Q = "\<lambda>a. length a = length a0", OF a1])
       (auto simp: wr_eq_Inr)
  have la2: "length a2 = length a1" by (rule binYonX_switch_length[OF a2])
  have la3: "length ans = length a2"
  proof (cases "ISNA initValue")
    case True
    with a3 show ?thesis by simp
  next
    case False
    with a3 have "for_loop 0 n_bin
                         (\<lambda>i p_ans. ebind (rd p_ans i)
                            (\<lambda>a. if ISNA a then wr p_ans i initValue else Inr p_ans))
                         a2 = Inr ans" by simp
    then show ?thesis
      by (rule for_loop_preserves[where Q = "\<lambda>a. length a = length a2"])
         (auto simp: ebind_eq_Inr wr_eq_Inr split: if_splits)
  qed
  from m0 have lm0: "length m0 = nat n_bin" by (auto simp: allocVector_eq_Inr)
  from bin_midPoint_result[OF m n] have lm: "length bin_mids = length m0"
    and mid: "\<forall>k. 0 \<le> k \<and> k < n_bin
               \<longrightarrow> bin_mids ! nat k = ddiv (dadd (brks ! nat k) (brks ! nat (k + 1))) (Fin 2)"
    by simp_all
  have "bin_mids ! i = ddiv (dadd (brks ! i) (brks ! (i + 1))) (Fin 2)"
    if "i < length bin_mids" for i
  proof -
    from that lm lm0 n have "0 \<le> int i \<and> int i < n_bin" by simp
    with mid have "bin_mids ! nat (int i)
        = ddiv (dadd (brks ! nat (int i)) (brks ! nat (int i + 1))) (Fin 2)"
      by blast
    moreover have "nat (int i + 1) = i + 1" by simp
    ultimately show ?thesis by simp
  qed
  moreover have "length brks = length bin_mids + 1" using lb lm lm0 n by simp
  ultimately show ?thesis
    using br la0 la1 la2 la3 lm lm0 by auto
qed

lemma binYonX_total:
  assumes idx: "0 \<le> fromIdx" "fromIdx \<le> toIdx" "toIdx < int (length x)"
    and ylen: "toIdx < int (length y)"
    and br: "binYonX_breaks breaks nBins binSize fromX toX shiftByHalfBinSize
               = Inr (n_bin, brks)"
    and vla: "method = 4 \<longrightarrow> 0 < n_bin"
  shows "\<exists>bin_mids ans. binYonX x y breaks nBins binSize fromX toX fromIdx toIdx
           shiftByHalfBinSize initValue method = Inr (bin_mids, ans)"
proof -
  from binYonX_breaks_shape[OF br] have n: "0 \<le> n_bin" and lb: "int (length brks) = n_bin + 1"
    by simp_all
  have a0: "allocVector NA_REAL n_bin = Inr (replicate (nat n_bin) NA_REAL)"
    using n by (simp add: allocVector_Inr)
  have "\<exists>t. for_loop 0 n_bin (\<lambda>i p_ans. wr p_ans i NA_REAL) (replicate (nat n_bin) NA_REAL)
              = Inr t \<and> int (length t) = n_bin"
    by (rule for_loop_total[where P = "\<lambda>j (a :: dbl list). int (length a) = n_bin"])
       (use n in \<open>auto simp: wr_Inr\<close>)
  then obtain a1 where
    a1: "for_loop 0 n_bin (\<lambda>i p_ans. wr p_ans i NA_REAL) (replicate (nat n_bin) NA_REAL)
           = Inr a1"
    and l1: "int (length a1) = n_bin" by blast
  from binYonX_switch_total[OF idx(1,3) ylen lb l1 vla] obtain a2 where
    a2: "binYonX_switch method x y brks a1 n_bin fromIdx toIdx = Inr a2" by blast
  from binYonX_switch_length[OF a2] l1 have l2: "int (length a2) = n_bin" by simp
  have "\<exists>t. for_loop 0 n_bin
               (\<lambda>i p_ans. ebind (rd p_ans i)
                  (\<lambda>a. if ISNA a then wr p_ans i initValue else Inr p_ans)) a2 = Inr t
            \<and> int (length t) = n_bin"
    by (rule for_loop_total[where P = "\<lambda>j (a :: dbl list). int (length a) = n_bin"])
       (use n l2 in \<open>auto simp: rd_Inr wr_Inr\<close>)
  then obtain a3 where
    a3: "(if \<not> ISNA initValue
          then for_loop 0 n_bin
                 (\<lambda>i p_ans. ebind (rd p_ans i)
                    (\<lambda>a. if ISNA a then wr p_ans i initValue else Inr p_ans)) a2
          else Inr a2) = Inr a3"
    by (cases "ISNA initValue") auto
  have m0: "allocVector (Fin 0) n_bin = Inr (replicate (nat n_bin) (Fin 0))"
    using n by (simp add: allocVector_Inr)
  have "\<exists>t. for_loop 0 n_bin
               (\<lambda>i bin_mids. ebind (rd brks i)
                  (\<lambda>b0. ebind (rd brks (i + 1))
                     (\<lambda>b1. wr bin_mids i (ddiv (dadd b0 b1) (Fin 2)))))
               (replicate (nat n_bin) (Fin 0)) = Inr t \<and> int (length t) = n_bin"
    by (rule for_loop_total[where P = "\<lambda>j (a :: double list). int (length a) = n_bin"])
       (use n lb in \<open>auto simp: rd_Inr wr_Inr\<close>)
  then obtain mids where
    m: "bin_midPoint brks (replicate (nat n_bin) (Fin 0)) n_bin = Inr mids"
    by (auto simp: bin_midPoint_def)
  show ?thesis
    using idx br a0 a1 a2 a3 m0 m by (simp add: binYonX_def)
qed

lemma valid_call_breaks:
  assumes "valid_call x y breaks nBins binSize fromX toX fromIdx toIdx shiftByHalfBinSize method"
  shows "\<exists>n_bin brks.
           binYonX_breaks breaks nBins binSize fromX toX shiftByHalfBinSize = Inr (n_bin, brks)
           \<and> (method = 4 \<longrightarrow> 0 < n_bin)"
proof (cases breaks)
  case (Some bs)
  with assms have "2 \<le> length bs" by (simp add: valid_call_def)
  then have "binYonX_breaks (Some bs) nBins binSize fromX toX shiftByHalfBinSize
          = Inr (int (length bs) - 1, bs)"
    by (cases bs) (auto simp: binYonX_breaks_def rd_def)
  with Some \<open>2 \<le> length bs\<close> show ?thesis by simp
next
  case None
  show ?thesis
  proof (cases nBins)
    case (Some nb)
    with None assms have nb: "0 < nb" "nb < 2147483647" by (simp_all add: valid_call_def)
    then have n: "0 \<le> nb" by simp
    have len: "int (length (replicate (nat (nb + 1)) (Fin 0))) = nb + 1" using nb by simp
    from breaks_on_nBins_internal_result[OF n len] nb None Some show ?thesis
      by (simp add: binYonX_breaks_def allocVector_Inr int_add_def)
  next
    case nn: None
    let ?from = "if shiftByHalfBinSize > 0 then dsub fromX (ddiv binSize (Fin 2)) else fromX"
    from None nn assms obtain q where
      pos: "\<not> dlt binSize (Fin 0)"
      and q: "ddiv (dsub toX ?from) binSize = Fin q"
      and r: "0 \<le> \<lceil>q\<rceil>" "\<lceil>q\<rceil> < 2147483647" "method = 4 \<longrightarrow> 0 < \<lceil>q\<rceil>"
      by (auto simp: valid_call_def split: double.splits)
    have c: "int_ceil (ddiv (dsub toX ?from) binSize) = Inr \<lceil>q\<rceil>"
      using q r by (simp add: int_ceil_def Let_def)
    have len: "int (length (replicate (nat (\<lceil>q\<rceil> + 1)) (Fin 0))) = \<lceil>q\<rceil> + 1" using r by simp
    from breaks_on_binSize_internal_result[OF r(1) len, of ?from toX binSize] c pos r None nn
    have "binYonX_breaks breaks nBins binSize fromX toX shiftByHalfBinSize
            = Inr (\<lceil>q\<rceil>, map (\<lambda>k. repeated_add k ?from binSize) [0..<nat \<lceil>q\<rceil>] @ [toX])"
      by (simp add: binYonX_breaks_def allocVector_Inr int_add_def Let_def)
    with r show ?thesis by simp
  qed
qed

section \<open>Properties\<close>

subsection \<open>A known small dataset\<close>

text \<open>
  C1. For x = [1,2,3,4], y = [10,20,30,40], the breaks [1,3,5], start index 0 and end
  index 3, the samples with x in [1,3) go to bin 0 and those with x in [3,5] to bin 1
  (x = 3 is the lower bound of bin 1, not the upper bound of bin 0): the aggregates are
  max = [20,40], min = [10,30], sum = [30,70] and mean = [15,35], both when the four
  static functions are run on a buffer of two missing values and through
  \<^verbatim>\<open>binYonX\<close> with the methods 1, 2, 3 and 4, where the mid-points are [2,4]. The scan
  hands the samples 0 and 1 to bin 0 and the samples 2 and 3 to bin 1; a sample at
  x = 5 belongs to bin 1 as well, the last bin being closed at both ends.
\<close>

theorem known_dataset_aggregates:
  "bin_y_on_x_with_breaks_max [Fin 1, Fin 2, Fin 3, Fin 4]
      [Some (Fin 10), Some (Fin 20), Some (Fin 30), Some (Fin 40)] [Fin 1, Fin 3, Fin 5]
     [NA_REAL, NA_REAL] 2 0 3 = Inr [Some (Fin 20), Some (Fin 40)]
   \<and> bin_y_on_x_with_breaks_min [Fin 1, Fin 2, Fin 3, Fin 4]
       [Some (Fin 10), Some (Fin 20), Some (Fin 30), Some (Fin 40)] [Fin 1, Fin 3, Fin 5]
     [NA_REAL, NA_REAL] 2 0 3 = Inr [Some (Fin 10), Some (Fin 30)]
   \<and> bin_y_on_x_with_breaks_sum [Fin 1, Fin 2, Fin 3, Fin 4]
       [Some (Fin 10), Some (Fin 20), Some (Fin 30), Some (Fin 40)] [Fin 1, Fin 3, Fin 5]
     [NA_REAL, NA_REAL] 2 0 3 = Inr [Some (Fin 30), Some (Fin 70)]
   \<and> bin_y_on_x_with_breaks_mean [Fin 1, Fin 2, Fin 3, Fin 4]
       [Some (Fin 10), Some (Fin 20), Some (Fin 30), Some (Fin 40)] [Fin 1, Fin 3, Fin 5]
     [NA_REAL, NA_REAL] 2 0 3 = Inr [Some (Fin 15), Some (Fin 35)]
   \<and> binYonX [Fin 1, Fin 2, Fin 3, Fin 4]
       [Some (Fin 10), Some (Fin 20), Some (Fin 30), Some (Fin 40)]
           (Some [Fin 1, Fin 3, Fin 5]) None (Fin 1) (Fin 0) (Fin 0)
        0 3 0 NA_REAL 1 = Inr ([Fin 2, Fin 4], [Some (Fin 20), Some (Fin 40)])
   \<and> binYonX [Fin 1, Fin 2, Fin 3, Fin 4]
       [Some (Fin 10), Some (Fin 20), Some (Fin 30), Some (Fin 40)]
           (Some [Fin 1, Fin 3, Fin 5]) None (Fin 1) (Fin 0) (Fin 0)
        0 3 0 NA_REAL 2 = Inr ([Fin 2, Fin 4], [Some (Fin 10), Some (Fin 30)])
   \<and> binYonX [Fin 1, Fin 2, Fin 3, Fin 4]
       [Some (Fin 10), Some (Fin 20), Some (Fin 30), Some (Fin 40)]
           (Some [Fin 1, Fin 3, Fin 5]) None (Fin 1) (Fin 0) (Fin 0)
        0 3 0 NA_REAL 3 = Inr ([Fin 2, Fin 4], [Some (Fin 30), Some (Fin 70)])
   \<and> binYonX [Fin 1, Fin 2, Fin 3, Fin 4]
       [Some (Fin 10), Some (Fin 20), Some (Fin 30), Some (Fin 40)]
           (Some [Fin 1, Fin 3, Fin 5]) None (Fin 1) (Fin 0) (Fin 0)
        0 3 0 NA_REAL 4 = Inr ([Fin 2, Fin 4], [Some (Fin 15), Some (Fin 35)])
   \<and> assignment [Fin 1, Fin 2, Fin 3, Fin 4] [Fin 1, Fin 3, Fin 5] 2 0 3
       = Inr [Enter 0, Sample 0 0, Sample 0 1, Enter 1, Sample 1 2, Sample 1 3]
   \<and> assignment [Fin 1, Fin 2, Fin 3, Fin 5] [Fin 1, Fin 3, Fin 5] 2 0 3
       = Inr [Enter 0, Sample 0 0, Sample 0 1, Enter 1, Sample 1 2, Sample 1 3]"
  by code_simp

subsection \<open>Breaks from a number of bins\<close>




subsection \<open>Breaks from a bin size\<close>

text \<open>
  C3 (as stated, refuted). The first boundaries of the bin-size mode are not
  \<open>fromX + k * binSize\<close>, and the number of bins is not the ceiling of the quotient
  \<open>(toX - fromX) / binSize\<close> of the three numbers. For \<open>fromX = 0\<close>, \<open>toX = 1\<close> and the double
  nearest to 0.1 as bin size, the boundary 8 is 0.7999999999999999, the result of eight
  rounded additions, while \<open>0 + 8 * binSize\<close> is 0.8 as a double (and a little more as a
  real number). For \<open>fromX = 0\<close>, \<open>toX = 3\<close> and the double nearest to 0.3, which lies
  below 0.3, the quotient is greater than 10 and its ceiling is 11; the code rounds the
  quotient to the double 10 first and makes 10 bins.
\<close>

theorem generate_by_size_counterexample:
  "breaks_on_binSize (Fin 0) (Fin 1) (Fin (3602879701896397 / 36028797018963968))
     = Inr [Fin 0, Fin (3602879701896397 / 36028797018963968),
            Fin (3602879701896397 / 18014398509481984),
            Fin (1351079888211149 / 4503599627370496),
            Fin (3602879701896397 / 9007199254740992), Fin (1 / 2),
            Fin (5404319552844595 / 9007199254740992),
            Fin (3152519739159347 / 4503599627370496),
            Fin (7205759403792793 / 9007199254740992),
            Fin (2026619832316723 / 2251799813685248), Fin 1]
   \<and> rnd (0 + 8 * (3602879701896397 / 36028797018963968))
       = Fin (3602879701896397 / 4503599627370496)
   \<and> Fin (7205759403792793 / 9007199254740992) \<noteq> Fin (3602879701896397 / 4503599627370496)
   \<and> Fin (7205759403792793 / 9007199254740992)
       \<noteq> Fin (0 + 8 * (3602879701896397 / 36028797018963968))
   \<and> breaks_on_binSize (Fin 0) (Fin 3) (Fin (5404319552844595 / 18014398509481984))
     = Inr [Fin 0, Fin (5404319552844595 / 18014398509481984),
            Fin (5404319552844595 / 9007199254740992),
            Fin (2026619832316723 / 2251799813685248),
            Fin (5404319552844595 / 4503599627370496), Fin (3 / 2),
            Fin (8106479329266893 / 4503599627370496),
            Fin (4728779608739021 / 2251799813685248),
            Fin (5404319552844595 / 2251799813685248),
            Fin (6079859496950169 / 2251799813685248), Fin 3]
   \<and> \<lceil>(3 - 0) / (5404319552844595 / 18014398509481984 :: real)\<rceil> = 11"
proof -
  have a: "breaks_on_binSize (Fin 0) (Fin 1) (Fin (3602879701896397 / 36028797018963968))
     = Inr [Fin 0, Fin (3602879701896397 / 36028797018963968),
            Fin (3602879701896397 / 18014398509481984),
            Fin (1351079888211149 / 4503599627370496),
            Fin (3602879701896397 / 9007199254740992), Fin (1 / 2),
            Fin (5404319552844595 / 9007199254740992),
            Fin (3152519739159347 / 4503599627370496),
            Fin (7205759403792793 / 9007199254740992),
            Fin (2026619832316723 / 2251799813685248), Fin 1]"
    by code_simp
  have b: "rnd (0 + 8 * (3602879701896397 / 36028797018963968))
       = Fin (3602879701896397 / 4503599627370496)"
    by code_simp
  have c: "breaks_on_binSize (Fin 0) (Fin 3) (Fin (5404319552844595 / 18014398509481984))
     = Inr [Fin 0, Fin (5404319552844595 / 18014398509481984),
            Fin (5404319552844595 / 9007199254740992),
            Fin (2026619832316723 / 2251799813685248),
            Fin (5404319552844595 / 4503599627370496), Fin (3 / 2),
            Fin (8106479329266893 / 4503599627370496),
            Fin (4728779608739021 / 2251799813685248),
            Fin (5404319552844595 / 2251799813685248),
            Fin (6079859496950169 / 2251799813685248), Fin 3]"
    by code_simp
  have d: "\<lceil>(3 - 0) / (5404319552844595 / 18014398509481984 :: real)\<rceil> = 11"
    by (simp add: ceiling_eq_iff)
  show ?thesis using a b c d by simp
qed

text \<open>
  C3 (amended). In the bin-size mode the number of bins is the ceiling of the double
  quotient \<open>(toX - fromX) / binSize\<close>, that is, of the quotient rounded to a double. When
  this is a non-negative \<^verbatim>\<open>int\<close> below the largest one, \<^verbatim>\<open>breaks_on_binSize\<close> returns
  \<open>nBins + 1\<close> boundaries: the first one is \<open>fromX\<close>, each of the next \<open>nBins - 1\<close> is the
  double sum of the one before and \<open>binSize\<close>, and the last one is \<open>toX\<close> itself, not the
  result of one more addition. \<^verbatim>\<open>binYonX\<close> computes the same breaks in its bin-size mode
  without shift, unless the bin size is negative. The boundaries are \<open>fromX + k * binSize\<close>
  as far as no operation rounds: for \<open>fromX = 0\<close>, \<open>toX = 10\<close> and the bin size 3 there are
  4 bins with the boundaries [0,3,6,9,10].
\<close>

theorem generate_by_size:
  assumes "ddiv (dsub toX fromX) binSize = Fin q"
    and "0 \<le> \<lceil>q\<rceil>" and "\<lceil>q\<rceil> < 2147483647"
  shows "breaks_on_binSize fromX toX binSize
           = Inr (map (\<lambda>k. repeated_add k fromX binSize) [0..<nat \<lceil>q\<rceil>] @ [toX])
         \<and> binYonX_breaks None None binSize fromX toX 0
           = (if dlt binSize (Fin 0) then Inl (InvalidArgument '''binSize' has to be > 0!'')
              else Inr (\<lceil>q\<rceil>, map (\<lambda>k. repeated_add k fromX binSize) [0..<nat \<lceil>q\<rceil>] @ [toX]))
         \<and> breaks_on_binSize (Fin 0) (Fin 10) (Fin 3) = Inr [Fin 0, Fin 3, Fin 6, Fin 9, Fin 10]"
proof (intro conjI)
  have c: "int_ceil (ddiv (dsub toX fromX) binSize) = Inr \<lceil>q\<rceil>"
    using assms by (simp add: int_ceil_def Let_def)
  have len: "int (length (replicate (nat (\<lceil>q\<rceil> + 1)) (Fin 0))) = \<lceil>q\<rceil> + 1"
    using assms by simp
  note r = breaks_on_binSize_internal_result[OF assms(2) len, of fromX toX binSize]
  show "breaks_on_binSize fromX toX binSize
           = Inr (map (\<lambda>k. repeated_add k fromX binSize) [0..<nat \<lceil>q\<rceil>] @ [toX])"
    using assms c r by (simp add: breaks_on_binSize_def allocVector_Inr int_add_def)
  show "binYonX_breaks None None binSize fromX toX 0
           = (if dlt binSize (Fin 0) then Inl (InvalidArgument '''binSize' has to be > 0!'')
              else Inr (\<lceil>q\<rceil>, map (\<lambda>k. repeated_add k fromX binSize) [0..<nat \<lceil>q\<rceil>] @ [toX]))"
    using assms c r by (simp add: binYonX_breaks_def allocVector_Inr int_add_def)
  show "breaks_on_binSize (Fin 0) (Fin 10) (Fin 3) = Inr [Fin 0, Fin 3, Fin 6, Fin 9, Fin 10]"
    by code_simp
qed

theorem generate_by_size_witness:
  "ddiv (dsub (Fin 3) (Fin 0)) (Fin (5404319552844595 / 18014398509481984)) = Fin 10
   \<and> (0::int) \<le> \<lceil>10 :: real\<rceil> \<and> \<lceil>10 :: real\<rceil> < (2147483647 :: int)
   \<and> binYonX_breaks None None (Fin (5404319552844595 / 18014398509481984)) (Fin 0) (Fin 3) 0
     = Inr (10, [Fin 0, Fin (5404319552844595 / 18014398509481984),
            Fin (5404319552844595 / 9007199254740992),
            Fin (2026619832316723 / 2251799813685248),
            Fin (5404319552844595 / 4503599627370496), Fin (3 / 2),
            Fin (8106479329266893 / 4503599627370496),
            Fin (4728779608739021 / 2251799813685248),
            Fin (5404319552844595 / 2251799813685248),
            Fin (6079859496950169 / 2251799813685248), Fin 3])"
proof -
  have q: "ddiv (dsub (Fin 3) (Fin 0)) (Fin (5404319552844595 / 18014398509481984)) = Fin 10"
    by code_simp
  have m: "map (\<lambda>k. repeated_add k (Fin 0) (Fin (5404319552844595 / 18014398509481984)))
             [0..<nat 10] @ [Fin 3]
           = [Fin 0, Fin (5404319552844595 / 18014398509481984),
            Fin (5404319552844595 / 9007199254740992),
            Fin (2026619832316723 / 2251799813685248),
            Fin (5404319552844595 / 4503599627370496), Fin (3 / 2),
            Fin (8106479329266893 / 4503599627370496),
            Fin (4728779608739021 / 2251799813685248),
            Fin (5404319552844595 / 2251799813685248),
            Fin (6079859496950169 / 2251799813685248), Fin 3]"
    by code_simp
  have p: "\<not> dlt (Fin (5404319552844595 / 18014398509481984)) (Fin 0)" by simp
  have c: "\<lceil>10 :: real\<rceil> = (10 :: int)" by simp
  from generate_by_size[OF q] c have
    "binYonX_breaks None None (Fin (5404319552844595 / 18014398509481984)) (Fin 0) (Fin 3) 0
       = (if dlt (Fin (5404319552844595 / 18014398509481984)) (Fin 0)
          then Inl (InvalidArgument '''binSize' has to be > 0!'')
          else Inr (10, map (\<lambda>k. repeated_add k (Fin 0)
                                    (Fin (5404319552844595 / 18014398509481984)))
                          [0..<nat 10] @ [Fin 3]))"
    by simp
  with p m q show ?thesis by (simp only: if_False) simp
qed

subsection \<open>Breaks from a number of bins, shifted by half a bin\<close>

text \<open>
  C4 (as stated, refuted). The breaks of the bin-count mode with the half-bin shift, for
  \<open>fromX = 0\<close>, \<open>toX = 10\<close> and 5 bins, are not [-1.25, 1.0, 3.25, 5.5, 7.75, 10.0].
\<close>

theorem shifted_breaks_counterexample:
  "binYonX_breaks None (Some 5) (Fin 1) (Fin 0) (Fin 10) 1
     \<noteq> Inr (5, [Fin (- (5 / 4)), Fin 1, Fin (13 / 4), Fin (11 / 2), Fin (31 / 4), Fin 10])"
  by code_simp

text \<open>
  C4 (amended). In the bin-count mode with the half-bin shift, \<open>fromX = 0\<close>, \<open>toX = 10\<close>
  and 5 bins, the step is \<open>(toX - fromX) / (nBins - 1) = 2.5\<close>, the first boundary is
  \<open>fromX - step / 2 = -1.25\<close>, and the breaks are the six points
  [-1.25, 1.25, 3.75, 6.25, 8.75, 11.25], each 2.5 after the one before: the last one is
  \<open>toX + step / 2\<close>, as the comment on \<^verbatim>\<open>shiftByHalfBinSize\<close> in the source says. All of
  these numbers are doubles, so that no operation rounds.
\<close>

theorem shifted_breaks:
  "binYonX_breaks None (Some 5) binSize (Fin 0) (Fin 10) 1
     = Inr (5, [Fin (- (5 / 4)), Fin (5 / 4), Fin (15 / 4), Fin (25 / 4), Fin (35 / 4),
                Fin (45 / 4)])
   \<and> breaks_on_nBins_internal (Fin 0) (Fin 10) 5 [Fin 0, Fin 0, Fin 0, Fin 0, Fin 0, Fin 0] 1
     = Inr [Fin (- (5 / 4)), Fin (5 / 4), Fin (15 / 4), Fin (25 / 4), Fin (35 / 4),
            Fin (45 / 4)]
   \<and> ddiv (dsub (Fin 10) (Fin 0)) (dsub (double_of_int 5) (double_of_int 1)) = Fin (5 / 2)
   \<and> dsub (Fin 0) (ddiv (Fin (5 / 2)) (Fin 2)) = Fin (- (5 / 4))"
proof -
  have i: "breaks_on_nBins_internal (Fin 0) (Fin 10) 5 [Fin 0, Fin 0, Fin 0, Fin 0, Fin 0, Fin 0] 1
     = Inr [Fin (- (5 / 4)), Fin (5 / 4), Fin (15 / 4), Fin (25 / 4), Fin (35 / 4),
            Fin (45 / 4)]"
    by code_simp
  have a: "allocVector (Fin 0) 6 = Inr [Fin 0, Fin 0, Fin 0, Fin 0, Fin 0, Fin 0]"
    by code_simp
  have b: "binYonX_breaks None (Some 5) binSize (Fin 0) (Fin 10) 1
     = Inr (5, [Fin (- (5 / 4)), Fin (5 / 4), Fin (15 / 4), Fin (25 / 4), Fin (35 / 4),
                Fin (45 / 4)])"
    by (simp add: binYonX_breaks_def int_add_def a i)
  have s: "ddiv (dsub (Fin 10) (Fin 0)) (dsub (double_of_int 5) (double_of_int 1)) = Fin (5 / 2)"
    by code_simp
  have t: "dsub (Fin 0) (ddiv (Fin (5 / 2)) (Fin 2)) = Fin (- (5 / 4))"
    by code_simp
  from b i s t show ?thesis by (intro conjI)
qed

subsection \<open>The check of the bin size\<close>

text \<open>
  C7 (the behaviour of the code where the claim fails). In the bin-size mode line 93
  tests \<^verbatim>\<open>bin_size < 0\<close>, although its message reads "'binSize' has to be > 0!". A bin
  size of 0 passes the test, and line 95 converts the quotient by zero, an infinity or
  not a number, to \<^verbatim>\<open>int\<close>: the call does not end with the error of line 94, for any
  range and shift. A negative bin size is rejected with that error.
\<close>

theorem binSize_zero_not_rejected:
  "binYonX [Fin 1] [Some (Fin 1)] None None (Fin 0) (Fin 0) (Fin 10) 0 0 0 NA_REAL 1
     = Inl Undefined
   \<and> binYonX_breaks None None (Fin 0) fromX toX shift = Inl Undefined
   \<and> binYonX [Fin 1] [Some (Fin 1)] None None (Fin (- 1)) (Fin 0) (Fin 10) 0 0 0 NA_REAL 1
     = Inl (InvalidArgument '''binSize' has to be > 0!'')"
proof -
  have z: "ddiv (Fin 0) (Fin 2) = Fin 0" by (simp add: ddiv_def rnd_def)
  have q: "int_ceil (ddiv a (Fin 0)) = Inl Undefined" for a
    by (cases a) (simp_all add: ddiv_def int_ceil_def)
  have g: "binYonX_breaks None None (Fin 0) fromX toX shift = Inl Undefined" for fromX toX shift
    by (simp add: binYonX_breaks_def Let_def z q)
  have n: "binYonX_breaks None None (Fin (- 1)) (Fin 0) (Fin 10) 0
            = Inl (InvalidArgument '''binSize' has to be > 0!'')"
    by (simp add: binYonX_breaks_def)
  show ?thesis
    by (simp add: binYonX_def g n)
qed

subsection \<open>The selection of the reducer\<close>

text \<open>
  C10. For every value of \<^verbatim>\<open>method\<close> other than 2, 3 and 4 the \<^verbatim>\<open>switch\<close> runs the max
  reducer, so that \<^verbatim>\<open>binYonX\<close> returns what it returns for the method 1 on the same
  arguments.
\<close>

theorem default_method_is_max:
  assumes "method \<noteq> 2" and "method \<noteq> 3" and "method \<noteq> 4"
  shows "binYonX_switch method x y p_brks p_ans n_bin from_idx to_idx
           = bin_y_on_x_with_breaks_max x y p_brks p_ans n_bin from_idx to_idx
         \<and> binYonX x y breaks nBins binSize fromX toX fromIdx toIdx shiftByHalfBinSize
             initValue method
           = binYonX x y breaks nBins binSize fromX toX fromIdx toIdx shiftByHalfBinSize
               initValue 1"
  using assms by (simp add: binYonX_def binYonX_switch_def)

theorem default_method_is_max_witness:
  "(7::int) \<noteq> 2 \<and> (7::int) \<noteq> 3 \<and> (7::int) \<noteq> 4
   \<and> binYonX [Fin 1, Fin 2, Fin 3, Fin 4]
       [Some (Fin 10), Some (Fin 20), Some (Fin 30), Some (Fin 40)]
           (Some [Fin 1, Fin 3, Fin 5]) None (Fin 1) (Fin 0) (Fin 0)
        0 3 0 NA_REAL 7 = Inr ([Fin 2, Fin 4], [Some (Fin 20), Some (Fin 40)])
   \<and> binYonX [Fin 1, Fin 2, Fin 3, Fin 4]
       [Some (Fin 10), Some (Fin 20), Some (Fin 30), Some (Fin 40)]
           (Some [Fin 1, Fin 3, Fin 5]) None (Fin 1) (Fin 0) (Fin 0)
        0 3 0 NA_REAL (- 2147483648) = Inr ([Fin 2, Fin 4], [Some (Fin 20), Some (Fin 40)])"
proof -
  have m: "binYonX [Fin 1, Fin 2, Fin 3, Fin 4]
      [Some (Fin 10), Some (Fin 20), Some (Fin 30), Some (Fin 40)]
          (Some [Fin 1, Fin 3, Fin 5]) None (Fin 1) (Fin 0) (Fin 0)
        0 3 0 NA_REAL 1 = Inr ([Fin 2, Fin 4], [Some (Fin 20), Some (Fin 40)])"
    by code_simp
  have "binYonX [Fin 1, Fin 2, Fin 3, Fin 4]
      [Some (Fin 10), Some (Fin 20), Some (Fin 30), Some (Fin 40)]
          (Some [Fin 1, Fin 3, Fin 5]) None (Fin 1) (Fin 0) (Fin 0)
        0 3 0 NA_REAL 7 = Inr ([Fin 2, Fin 4], [Some (Fin 20), Some (Fin 40)])"
    using default_method_is_max[of 7 "[Fin 1, Fin 2, Fin 3, Fin 4]" "[Some (Fin 10), Some (Fin 20), Some (Fin 30), Some (Fin 40)]" _ _ _ _ _
        "Some [Fin 1, Fin 3, Fin 5]" None "Fin 1" "Fin 0" "Fin 0" 0 3 0 NA_REAL] m by simp
  moreover have "binYonX [Fin 1, Fin 2, Fin 3, Fin 4]
      [Some (Fin 10), Some (Fin 20), Some (Fin 30), Some (Fin 40)]
          (Some [Fin 1, Fin 3, Fin 5]) None (Fin 1) (Fin 0) (Fin 0)
        0 3 0 NA_REAL (- 2147483648) = Inr ([Fin 2, Fin 4], [Some (Fin 20), Some (Fin 40)])"
    using default_method_is_max[of "- 2147483648" "[Fin 1, Fin 2, Fin 3, Fin 4]" "[Some (Fin 10), Some (Fin 20), Some (Fin 30), Some (Fin 40)]" _ _ _ _ _
        "Some [Fin 1, Fin 3, Fin 5]" None "Fin 1" "Fin 0" "Fin 0" 0 3 0 NA_REAL] m by simp
  ultimately show ?thesis by simp
qed

subsection \<open>The checks of the index window\<close>

text \<open>
  C8. \<^verbatim>\<open>binYonX\<close> ends with one of the three errors of lines 57-62, and so without a
  result, exactly when the start index is negative, the end index is negative, the start
  index is greater than the end index, or the end index is not less than the length of
  \<open>x\<close>. The three tests come first in the function, before the breaks are computed or
  a buffer is allocated; when they pass, whatever the call ends with is not one of these
  three errors.
\<close>

theorem index_checks:
  "binYonX x y breaks nBins binSize fromX toX fromIdx toIdx shiftByHalfBinSize initValue method
     \<in> {Inl (InvalidArgument '''fromIdx' and 'toIdx' have to be >= 0!''),
        Inl (InvalidArgument '''fromIdx' has to be smaller than 'toIdx'!''),
        Inl (InvalidArgument '''toIdx' can not be larger than length(x)!'')}
   \<longleftrightarrow> (fromIdx < 0 \<or> toIdx < 0 \<or> fromIdx > toIdx \<or> toIdx \<ge> int (length x))"
proof (cases "fromIdx < 0 \<or> toIdx < 0 \<or> fromIdx > toIdx \<or> toIdx \<ge> int (length x)")
  case True
  then show ?thesis by (auto simp: binYonX_def)
next
  case False
  then have c: "\<not> (fromIdx < 0 \<or> toIdx < 0)" "\<not> fromIdx > toIdx" "\<not> toIdx \<ge> int (length x)"
    by auto
  have "binYonX x y breaks nBins binSize fromX toX fromIdx toIdx shiftByHalfBinSize initValue
          method \<noteq> Inl (InvalidArgument m)"
    if "m \<in> {'''fromIdx' and 'toIdx' have to be >= 0!'',
              '''fromIdx' has to be smaller than 'toIdx'!'',
              '''toIdx' can not be larger than length(x)!''}" for m
  proof
    assume "binYonX x y breaks nBins binSize fromX toX fromIdx toIdx shiftByHalfBinSize initValue
          method = Inl (InvalidArgument m)"
    from binYonX_later_errors[OF c this] that show False by auto
  qed
  with False show ?thesis by auto
qed

theorem index_checks_witness:
  "binYonX [Fin 1, Fin 2, Fin 3, Fin 4]
      [Some (Fin 10), Some (Fin 20), Some (Fin 30), Some (Fin 40)]
          (Some [Fin 1, Fin 3, Fin 5]) None (Fin 1) (Fin 0) (Fin 0) 2 1 0
     NA_REAL 1 = Inl (InvalidArgument '''fromIdx' has to be smaller than 'toIdx'!'')
   \<and> binYonX [Fin 1, Fin 2, Fin 3, Fin 4]
       [Some (Fin 10), Some (Fin 20), Some (Fin 30), Some (Fin 40)]
           (Some [Fin 1, Fin 3, Fin 5]) None (Fin 1) (Fin 0) (Fin 0) 0 3 0
     NA_REAL 1 \<notin> {Inl (InvalidArgument '''fromIdx' and 'toIdx' have to be >= 0!''),
        Inl (InvalidArgument '''fromIdx' has to be smaller than 'toIdx'!''),
        Inl (InvalidArgument '''toIdx' can not be larger than length(x)!'')}"
  using index_checks[of "[Fin 1, Fin 2, Fin 3, Fin 4]" "[Some (Fin 10), Some (Fin 20), Some (Fin 30), Some (Fin 40)]" "Some
      [Fin 1, Fin 3, Fin 5]"
      None "Fin 1" "Fin 0" "Fin 0" 2 1 0 NA_REAL 1]
    index_checks[of "[Fin 1, Fin 2, Fin 3, Fin 4]" "[Some (Fin 10), Some (Fin 20), Some (Fin 30), Some (Fin 40)]" "Some
        [Fin 1, Fin 3, Fin 5]"
      None "Fin 1" "Fin 0" "Fin 0" 0 3 0 NA_REAL 1]
  by (simp add: binYonX_def)

subsection \<open>The shape of the result\<close>



subsection \<open>Missing values\<close>

text \<open>
  C6. Let a call of \<^verbatim>\<open>binYonX\<close> return a result, and let every sample that the scan
  assigns to the bin \<open>i\<close> have a missing y value. Then the aggregate of the bin \<open>i\<close> is
  \<^verbatim>\<open>initValue\<close>: the missing sentinel when no default is given, under each of the four
  reducers. Moreover the innermost statement of each reducer leaves its state unchanged
  for a sample whose y value is missing; the mean divides exactly the bins whose counter
  is greater than zero and leaves the others as they are, so that it never divides by
  zero; and for x = [1,2,3,4], y = [NA,20,30,40] and the breaks [1,3,5] the aggregate of
  bin 0 is 20 under max, min, sum and mean.
\<close>

theorem missing_values_skipped:
  assumes run: "binYonX x y breaks nBins binSize fromX toX fromIdx toIdx shiftByHalfBinSize
             initValue method = Inr (bin_mids, ans)"
    and br: "binYonX_breaks breaks nBins binSize fromX toX shiftByHalfBinSize = Inr (n_bin, brks)"
    and asg: "assignment x brks n_bin fromIdx toIdx = Inr evs"
    and i: "0 \<le> i" "i < n_bin"
    and na: "\<forall>k. Sample i k \<in> set evs \<longrightarrow> rd y k = Inr NA_REAL"
  shows "ans ! nat i = initValue
    \<and> (\<forall>j k a. rd y k = Inr NA_REAL \<longrightarrow>
          max_fold y j k a = Inr a \<and> min_fold y j k a = Inr a \<and> sum_fold y j k a = Inr a)
    \<and> (\<forall>j k st. rd y k = Inr NA_REAL \<longrightarrow> mean_fold y j k st = Inr st)
    \<and> (\<forall>n el a a'. 0 \<le> n \<and> mean_divide n el a = Inr a' \<longrightarrow>
          (\<forall>k. 0 \<le> k \<and> k < n \<longrightarrow>
             a' ! nat k = (if el ! nat k > 0 then dbl_div_int (a ! nat k) (el ! nat k)
                           else a ! nat k)))
    \<and> binYonX [Fin 1, Fin 2, Fin 3, Fin 4]
        [NA_REAL, Some (Fin 20), Some (Fin 30), Some (Fin 40)]
            (Some [Fin 1, Fin 3, Fin 5]) None (Fin 1) (Fin 0) (Fin 0)
        0 3 0 NA_REAL 1 = Inr ([Fin 2, Fin 4], [Some (Fin 20), Some (Fin 40)])
    \<and> binYonX [Fin 1, Fin 2, Fin 3, Fin 4]
        [NA_REAL, Some (Fin 20), Some (Fin 30), Some (Fin 40)]
            (Some [Fin 1, Fin 3, Fin 5]) None (Fin 1) (Fin 0) (Fin 0)
        0 3 0 NA_REAL 2 = Inr ([Fin 2, Fin 4], [Some (Fin 20), Some (Fin 30)])
    \<and> binYonX [Fin 1, Fin 2, Fin 3, Fin 4]
        [NA_REAL, Some (Fin 20), Some (Fin 30), Some (Fin 40)]
            (Some [Fin 1, Fin 3, Fin 5]) None (Fin 1) (Fin 0) (Fin 0)
        0 3 0 NA_REAL 3 = Inr ([Fin 2, Fin 4], [Some (Fin 20), Some (Fin 70)])
    \<and> binYonX [Fin 1, Fin 2, Fin 3, Fin 4]
        [NA_REAL, Some (Fin 20), Some (Fin 30), Some (Fin 40)]
            (Some [Fin 1, Fin 3, Fin 5]) None (Fin 1) (Fin 0) (Fin 0)
        0 3 0 NA_REAL 4 = Inr ([Fin 2, Fin 4], [Some (Fin 20), Some (Fin 35)])"
proof (intro conjI)
  show "ans ! nat i = initValue"
    by (rule binYonX_missing_bin[OF run br asg i na])
  show "\<forall>j k a. rd y k = Inr NA_REAL \<longrightarrow>
          max_fold y j k a = Inr a \<and> min_fold y j k a = Inr a \<and> sum_fold y j k a = Inr a"
    by (simp add: max_fold_NA min_fold_NA sum_fold_NA)
  show "\<forall>j k st. rd y k = Inr NA_REAL \<longrightarrow> mean_fold y j k st = Inr st"
    by (simp add: mean_fold_NA)
  show "\<forall>n el a a'. 0 \<le> n \<and> mean_divide n el a = Inr a' \<longrightarrow>
          (\<forall>k. 0 \<le> k \<and> k < n \<longrightarrow>
             a' ! nat k = (if el ! nat k > 0 then dbl_div_int (a ! nat k) (el ! nat k)
                           else a ! nat k))"
    using mean_divide_result by blast
  show "binYonX [Fin 1, Fin 2, Fin 3, Fin 4]
      [NA_REAL, Some (Fin 20), Some (Fin 30), Some (Fin 40)]
          (Some [Fin 1, Fin 3, Fin 5]) None (Fin 1) (Fin 0) (Fin 0)
        0 3 0 NA_REAL 1 = Inr ([Fin 2, Fin 4], [Some (Fin 20), Some (Fin 40)])"
    by code_simp
  show "binYonX [Fin 1, Fin 2, Fin 3, Fin 4]
      [NA_REAL, Some (Fin 20), Some (Fin 30), Some (Fin 40)]
          (Some [Fin 1, Fin 3, Fin 5]) None (Fin 1) (Fin 0) (Fin 0)
        0 3 0 NA_REAL 2 = Inr ([Fin 2, Fin 4], [Some (Fin 20), Some (Fin 30)])"
    by code_simp
  show "binYonX [Fin 1, Fin 2, Fin 3, Fin 4]
      [NA_REAL, Some (Fin 20), Some (Fin 30), Some (Fin 40)]
          (Some [Fin 1, Fin 3, Fin 5]) None (Fin 1) (Fin 0) (Fin 0)
        0 3 0 NA_REAL 3 = Inr ([Fin 2, Fin 4], [Some (Fin 20), Some (Fin 70)])"
    by code_simp
  show "binYonX [Fin 1, Fin 2, Fin 3, Fin 4]
      [NA_REAL, Some (Fin 20), Some (Fin 30), Some (Fin 40)]
          (Some [Fin 1, Fin 3, Fin 5]) None (Fin 1) (Fin 0) (Fin 0)
        0 3 0 NA_REAL 4 = Inr ([Fin 2, Fin 4], [Some (Fin 20), Some (Fin 35)])"
    by code_simp
qed

theorem missing_values_skipped_witness:
  "binYonX [Fin 1, Fin 2, Fin 3, Fin 4]
      [NA_REAL, NA_REAL, Some (Fin 30), Some (Fin 40)]
          (Some [Fin 1, Fin 3, Fin 5]) None (Fin 1) (Fin 0) (Fin 0)
     0 3 0 NA_REAL 4 = Inr ([Fin 2, Fin 4], [NA_REAL, Some (Fin 35)])
   \<and> binYonX_breaks
       (Some [Fin 1, Fin 3, Fin 5]) None (Fin 1) (Fin 0) (Fin 0) 0 = Inr (2, [Fin 1, Fin 3, Fin 5])
   \<and> assignment [Fin 1, Fin 2, Fin 3, Fin 4] [Fin 1, Fin 3, Fin 5] 2 0 3
       = Inr [Enter 0, Sample 0 0, Sample 0 1, Enter 1, Sample 1 2, Sample 1 3]
   \<and> rd [NA_REAL, NA_REAL, Some (Fin 30), Some (Fin 40)] 0 = Inr NA_REAL
   \<and> rd [NA_REAL, NA_REAL, Some (Fin 30), Some (Fin 40)] 1 = Inr NA_REAL
   \<and> [NA_REAL, Some (Fin 35)] ! nat 0 = NA_REAL
   \<and> max_fold [NA_REAL, NA_REAL, Some (Fin 30), Some (Fin 40)] 0 1 [Some (Fin 7), NA_REAL]
       = Inr [Some (Fin 7), NA_REAL]
   \<and> mean_fold
       [NA_REAL, NA_REAL, Some (Fin 30), Some (Fin 40)] 0 1 ([Some (Fin 7), NA_REAL], [1, 0])
       = Inr ([Some (Fin 7), NA_REAL], [1, 0])"
proof -
  have run: "binYonX [Fin 1, Fin 2, Fin 3, Fin 4]
      [NA_REAL, NA_REAL, Some (Fin 30), Some (Fin 40)]
          (Some [Fin 1, Fin 3, Fin 5]) None (Fin 1) (Fin 0) (Fin 0)
     0 3 0 NA_REAL 4 = Inr ([Fin 2, Fin 4], [NA_REAL, Some (Fin 35)])"
    by code_simp
  have br: "binYonX_breaks
      (Some [Fin 1, Fin 3, Fin 5]) None (Fin 1) (Fin 0) (Fin 0) 0 = Inr (2, [Fin 1, Fin 3, Fin 5])"
    by code_simp
  have asg: "assignment [Fin 1, Fin 2, Fin 3, Fin 4] [Fin 1, Fin 3, Fin 5] 2 0 3
       = Inr [Enter 0, Sample 0 0, Sample 0 1, Enter 1, Sample 1 2, Sample 1 3]"
    by code_simp
  have r0: "rd [NA_REAL, NA_REAL, Some (Fin 30), Some (Fin 40)] 0 = Inr NA_REAL"
    and r1: "rd [NA_REAL, NA_REAL, Some (Fin 30), Some (Fin 40)] 1 = Inr NA_REAL"
    by (simp_all add: rd_def)
  have na: "\<forall>k. Sample 0 k \<in> set [Enter 0, Sample 0 0, Sample 0 1, Enter 1, Sample 1 2,
                                  Sample 1 3]
              \<longrightarrow> rd [NA_REAL, NA_REAL, Some (Fin 30), Some (Fin 40)] k = Inr NA_REAL"
    using r0 r1 by auto
  from missing_values_skipped[OF run br asg _ _ na] r0 r1 run br asg
  show ?thesis by simp
qed

subsection \<open>Samples below the first break\<close>

text \<open>
  C9. Let the samples from the start index up to, not including, \<open>k0\<close> lie below the
  first break. Then \<^verbatim>\<open>binYonX\<close> returns for the window from the start index what it
  returns for the window from \<open>k0\<close>, and this is a result, not an error, when the
  window lies in \<open>y\<close> (and the mean has a bin): the low samples add to no bin. The scan
  hands the samples to the bins in the order of their indices, each at most once; every
  sample it hands to a bin lies in the window from \<open>k0\<close> and in that bin, and none of
  them lies below the first break when the breaks ascend. If the samples of the window from \<open>k0\<close>
  are in ascending order and the breaks as well, the scan hands every sample of that
  window that lies in a bin to this bin, also the sample that equals the last break, and
  the aggregate of a bin that was handed a sample whose y value is not missing is not
  missing, under every method. For x = [0, 0.5, 1, 2, 3, 5], y = [100, 200, 10, 20, 30,
  40] and the breaks [1,3,5] the samples 2, 3 go to bin 0 and the samples 4, 5 to bin 1:
  max = [20,40], min = [10,30], sum = [30,70], mean = [15,35].
\<close>

theorem low_samples_excluded:
  assumes br: "binYonX_breaks breaks nBins binSize fromX toX shiftByHalfBinSize
                 = Inr (n_bin, brks)"
    and idx: "0 \<le> fromIdx" "fromIdx \<le> k0" "k0 \<le> toIdx" "toIdx < int (length x)"
    and low: "\<forall>m. fromIdx \<le> m \<and> m < k0 \<longrightarrow> dlt (x ! nat m) (brks ! 0)"
  shows "binYonX x y breaks nBins binSize fromX toX fromIdx toIdx shiftByHalfBinSize
           initValue method
         = binYonX x y breaks nBins binSize fromX toX k0 toIdx shiftByHalfBinSize
             initValue method
    \<and> (toIdx < int (length y) \<and> (method = 4 \<longrightarrow> 0 < n_bin)
         \<longrightarrow> (\<exists>bin_mids ans.
                binYonX x y breaks nBins binSize fromX toX fromIdx toIdx shiftByHalfBinSize
                  initValue method = Inr (bin_mids, ans)))
    \<and> (\<exists>evs. assignment x brks n_bin fromIdx toIdx = Inr evs
          \<and> assignment x brks n_bin k0 toIdx = Inr evs
          \<and> sorted_wrt (<) (samples evs)
          \<and> (\<forall>i k. Sample i k \<in> set evs
                \<longrightarrow> k0 \<le> k \<and> k \<le> toIdx \<and> in_bin brks n_bin i (x ! nat k))
          \<and> (\<forall>i k. ascending brks 0 n_bin \<and> dlt (x ! nat k) (brks ! 0)
                \<longrightarrow> Sample i k \<notin> set evs)
          \<and> (ascending x k0 toIdx \<and> ascending brks 0 n_bin
                \<longrightarrow> (\<forall>i k. k0 \<le> k \<and> k \<le> toIdx \<and> in_bin brks n_bin i (x ! nat k)
                       \<longrightarrow> Sample i k \<in> set evs))
          \<and> (\<forall>bin_mids ans i k v.
                binYonX x y breaks nBins binSize fromX toX fromIdx toIdx shiftByHalfBinSize
                  initValue method = Inr (bin_mids, ans)
                \<and> Sample i k \<in> set evs \<and> rd y k = Inr (Some v)
                \<longrightarrow> ans ! nat i \<noteq> NA_REAL))
    \<and> assignment [Fin 0, Fin (1 / 2), Fin 1, Fin 2, Fin 3, Fin 5] [Fin 1, Fin 3, Fin 5] 2 0 5
        = Inr [Enter 0, Sample 0 2, Sample 0 3, Enter 1, Sample 1 4, Sample 1 5]
    \<and> binYonX [Fin 0, Fin (1 / 2), Fin 1, Fin 2, Fin 3, Fin 5]
         [Some (Fin 100), Some (Fin 200), Some (Fin 10), Some (Fin 20), Some (Fin 30),
          Some (Fin 40)]
         (Some [Fin 1, Fin 3, Fin 5]) None (Fin 1) (Fin 0) (Fin 0) 0 5 0 NA_REAL 1
        = Inr ([Fin 2, Fin 4], [Some (Fin 20), Some (Fin 40)])
    \<and> binYonX [Fin 0, Fin (1 / 2), Fin 1, Fin 2, Fin 3, Fin 5]
         [Some (Fin 100), Some (Fin 200), Some (Fin 10), Some (Fin 20), Some (Fin 30),
          Some (Fin 40)]
         (Some [Fin 1, Fin 3, Fin 5]) None (Fin 1) (Fin 0) (Fin 0) 0 5 0 NA_REAL 2
        = Inr ([Fin 2, Fin 4], [Some (Fin 10), Some (Fin 30)])
    \<and> binYonX [Fin 0, Fin (1 / 2), Fin 1, Fin 2, Fin 3, Fin 5]
         [Some (Fin 100), Some (Fin 200), Some (Fin 10), Some (Fin 20), Some (Fin 30),
          Some (Fin 40)]
         (Some [Fin 1, Fin 3, Fin 5]) None (Fin 1) (Fin 0) (Fin 0) 0 5 0 NA_REAL 3
        = Inr ([Fin 2, Fin 4], [Some (Fin 30), Some (Fin 70)])
    \<and> binYonX [Fin 0, Fin (1 / 2), Fin 1, Fin 2, Fin 3, Fin 5]
         [Some (Fin 100), Some (Fin 200), Some (Fin 10), Some (Fin 20), Some (Fin 30),
          Some (Fin 40)]
         (Some [Fin 1, Fin 3, Fin 5]) None (Fin 1) (Fin 0) (Fin 0) 0 5 0 NA_REAL 4
        = Inr ([Fin 2, Fin 4], [Some (Fin 15), Some (Fin 35)])"
proof (intro conjI)
  from binYonX_breaks_shape[OF br] have n: "0 \<le> n_bin" and lb: "int (length brks) = n_bin + 1"
    by simp_all
  then have ne: "brks \<noteq> []" by auto
  show "binYonX x y breaks nBins binSize fromX toX fromIdx toIdx shiftByHalfBinSize
           initValue method
         = binYonX x y breaks nBins binSize fromX toX k0 toIdx shiftByHalfBinSize
             initValue method"
    by (rule binYonX_skip[OF br idx low])
  show "toIdx < int (length y) \<and> (method = 4 \<longrightarrow> 0 < n_bin)
         \<longrightarrow> (\<exists>bin_mids ans.
                binYonX x y breaks nBins binSize fromX toX fromIdx toIdx shiftByHalfBinSize
                  initValue method = Inr (bin_mids, ans))"
    using binYonX_total[OF idx(1) _ idx(4) _ br] idx by auto
  have k0: "0 \<le> k0" using idx by simp
  from assignment_total[OF k0 idx(4) lb] obtain evs where
    a0: "assignment x brks n_bin k0 toIdx = Inr evs" by blast
  have "assignment x brks n_bin fromIdx toIdx = assignment x brks n_bin k0 toIdx"
    by (rule assignment_skip) (use idx low ne in simp_all)
  with a0 have a: "assignment x brks n_bin fromIdx toIdx = Inr evs" by simp
  have snd: "k0 \<le> k \<and> k \<le> toIdx \<and> in_bin brks n_bin i (x ! nat k)"
    if "Sample i k \<in> set evs" for i k
    using assignment_sound[OF a0 that] .
  have lowout: "Sample i k \<notin> set evs"
    if "ascending brks 0 n_bin \<and> dlt (x ! nat k) (brks ! 0)" for i k
  proof
    assume "Sample i k \<in> set evs"
    from snd[OF this] have ib: "in_bin brks n_bin i (x ! nat k)" by simp
    then have i: "0 \<le> i" "i < n_bin" and lo: "dle (brks ! nat i) (x ! nat k)"
      by (auto simp: in_bin_def)
    from that i have "dle (brks ! nat 0) (brks ! nat i)"
      by (intro ascendingD[of brks 0 n_bin]) simp_all
    from this lo have "dle (brks ! 0) (x ! nat k)" using dle_trans by fastforce
    with that show False using dle_not_dlt by blast
  qed
  have cmp: "Sample i k \<in> set evs"
    if "ascending x k0 toIdx \<and> ascending brks 0 n_bin"
      and "k0 \<le> k \<and> k \<le> toIdx \<and> in_bin brks n_bin i (x ! nat k)" for i k
    using assignment_complete[OF a0, of k i] that by simp
  have val: "ans ! nat i \<noteq> NA_REAL"
    if "binYonX x y breaks nBins binSize fromX toX fromIdx toIdx shiftByHalfBinSize
                  initValue method = Inr (bin_mids, ans)
                \<and> Sample i k \<in> set evs \<and> rd y k = Inr (Some v)" for bin_mids ans i k v
    using binYonX_value[OF _ br a] that by blast
  show "\<exists>evs. assignment x brks n_bin fromIdx toIdx = Inr evs
          \<and> assignment x brks n_bin k0 toIdx = Inr evs
          \<and> sorted_wrt (<) (samples evs)
          \<and> (\<forall>i k. Sample i k \<in> set evs
                \<longrightarrow> k0 \<le> k \<and> k \<le> toIdx \<and> in_bin brks n_bin i (x ! nat k))
          \<and> (\<forall>i k. ascending brks 0 n_bin \<and> dlt (x ! nat k) (brks ! 0)
                \<longrightarrow> Sample i k \<notin> set evs)
          \<and> (ascending x k0 toIdx \<and> ascending brks 0 n_bin
                \<longrightarrow> (\<forall>i k. k0 \<le> k \<and> k \<le> toIdx \<and> in_bin brks n_bin i (x ! nat k)
                       \<longrightarrow> Sample i k \<in> set evs))
          \<and> (\<forall>bin_mids ans i k v.
                binYonX x y breaks nBins binSize fromX toX fromIdx toIdx shiftByHalfBinSize
                  initValue method = Inr (bin_mids, ans)
                \<and> Sample i k \<in> set evs \<and> rd y k = Inr (Some v)
                \<longrightarrow> ans ! nat i \<noteq> NA_REAL)"
  proof (intro exI[of _ evs] conjI allI impI)
    show "assignment x brks n_bin fromIdx toIdx = Inr evs" by fact
    show "assignment x brks n_bin k0 toIdx = Inr evs" by fact
    show "sorted_wrt (<) (samples evs)" by (rule assignment_forward[OF a0])
  next
    fix i k assume "Sample i k \<in> set evs"
    from snd[OF this] show "k0 \<le> k" "k \<le> toIdx" "in_bin brks n_bin i (x ! nat k)"
      by simp_all
  next
    fix i k assume "ascending brks 0 n_bin \<and> dlt (x ! nat k) (brks ! 0)"
    from lowout[OF this] show "Sample i k \<notin> set evs" .
  next
    fix i k
    assume "ascending x k0 toIdx \<and> ascending brks 0 n_bin"
      and "k0 \<le> k \<and> k \<le> toIdx \<and> in_bin brks n_bin i (x ! nat k)"
    from cmp[OF this] show "Sample i k \<in> set evs" .
  next
    fix bin_mids ans i k v
    assume "binYonX x y breaks nBins binSize fromX toX fromIdx toIdx shiftByHalfBinSize
                  initValue method = Inr (bin_mids, ans)
                \<and> Sample i k \<in> set evs \<and> rd y k = Inr (Some v)"
    from val[OF this] show "ans ! nat i \<noteq> NA_REAL" .
  qed
  show "assignment [Fin 0, Fin (1 / 2), Fin 1, Fin 2, Fin 3, Fin 5] [Fin 1, Fin 3, Fin 5] 2 0 5
        = Inr [Enter 0, Sample 0 2, Sample 0 3, Enter 1, Sample 1 4, Sample 1 5]"
    by code_simp
  show "binYonX [Fin 0, Fin (1 / 2), Fin 1, Fin 2, Fin 3, Fin 5]
         [Some (Fin 100), Some (Fin 200), Some (Fin 10), Some (Fin 20), Some (Fin 30),
          Some (Fin 40)]
         (Some [Fin 1, Fin 3, Fin 5]) None (Fin 1) (Fin 0) (Fin 0) 0 5 0 NA_REAL 1
        = Inr ([Fin 2, Fin 4], [Some (Fin 20), Some (Fin 40)])"
    by code_simp
  show "binYonX [Fin 0, Fin (1 / 2), Fin 1, Fin 2, Fin 3, Fin 5]
         [Some (Fin 100), Some (Fin 200), Some (Fin 10), Some (Fin 20), Some (Fin 30),
          Some (Fin 40)]
         (Some [Fin 1, Fin 3, Fin 5]) None (Fin 1) (Fin 0) (Fin 0) 0 5 0 NA_REAL 2
        = Inr ([Fin 2, Fin 4], [Some (Fin 10), Some (Fin 30)])"
    by code_simp
  show "binYonX [Fin 0, Fin (1 / 2), Fin 1, Fin 2, Fin 3, Fin 5]
         [Some (Fin 100), Some (Fin 200), Some (Fin 10), Some (Fin 20), Some (Fin 30),
          Some (Fin 40)]
         (Some [Fin 1, Fin 3, Fin 5]) None (Fin 1) (Fin 0) (Fin 0) 0 5 0 NA_REAL 3
        = Inr ([Fin 2, Fin 4], [Some (Fin 30), Some (Fin 70)])"
    by code_simp
  show "binYonX [Fin 0, Fin (1 / 2), Fin 1, Fin 2, Fin 3, Fin 5]
         [Some (Fin 100), Some (Fin 200), Some (Fin 10), Some (Fin 20), Some (Fin 30),
          Some (Fin 40)]
         (Some [Fin 1, Fin 3, Fin 5]) None (Fin 1) (Fin 0) (Fin 0) 0 5 0 NA_REAL 4
        = Inr ([Fin 2, Fin 4], [Some (Fin 15), Some (Fin 35)])"
    by code_simp
qed

theorem low_samples_excluded_witness:
  "binYonX_breaks (Some [Fin 1, Fin 3, Fin 5]) None (Fin 1) (Fin 0) (Fin 0) 0
     = Inr (2, [Fin 1, Fin 3, Fin 5])
   \<and> dlt ([Fin 0, Fin (1 / 2), Fin 1, Fin 2, Fin 3, Fin 5] ! nat 0) ([Fin 1, Fin 3, Fin 5] ! 0)
   \<and> dlt ([Fin 0, Fin (1 / 2), Fin 1, Fin 2, Fin 3, Fin 5] ! nat 1) ([Fin 1, Fin 3, Fin 5] ! 0)
   \<and> ascending [Fin 0, Fin (1 / 2), Fin 1, Fin 2, Fin 3, Fin 5] 2 5
   \<and> ascending [Fin 1, Fin 3, Fin 5] 0 2
   \<and> in_bin [Fin 1, Fin 3, Fin 5] 2 1 ([Fin 0, Fin (1 / 2), Fin 1, Fin 2, Fin 3, Fin 5] ! nat 5)
   \<and> binYonX [Fin 0, Fin (1 / 2), Fin 1, Fin 2, Fin 3, Fin 5]
         [Some (Fin 100), Some (Fin 200), Some (Fin 10), Some (Fin 20), Some (Fin 30),
          Some (Fin 40)]
         (Some [Fin 1, Fin 3, Fin 5]) None (Fin 1) (Fin 0) (Fin 0) 0 5 0 NA_REAL 1
      = binYonX [Fin 0, Fin (1 / 2), Fin 1, Fin 2, Fin 3, Fin 5]
         [Some (Fin 100), Some (Fin 200), Some (Fin 10), Some (Fin 20), Some (Fin 30),
          Some (Fin 40)]
         (Some [Fin 1, Fin 3, Fin 5]) None (Fin 1) (Fin 0) (Fin 0) 2 5 0 NA_REAL 1
   \<and> binYonX [Fin 0, Fin (1 / 2), Fin 1, Fin 2, Fin 3, Fin 5]
         [Some (Fin 100), Some (Fin 200), Some (Fin 10), Some (Fin 20), Some (Fin 30),
          Some (Fin 40)]
         (Some [Fin 1, Fin 3, Fin 5]) None (Fin 1) (Fin 0) (Fin 0) 2 5 0 NA_REAL 1
      = Inr ([Fin 2, Fin 4], [Some (Fin 20), Some (Fin 40)])
   \<and> assignment [Fin 0, Fin (1 / 2), Fin 1, Fin 2, Fin 3, Fin 5] [Fin 1, Fin 3, Fin 5] 2 2 5
       = Inr [Enter 0, Sample 0 2, Sample 0 3, Enter 1, Sample 1 4, Sample 1 5]
   \<and> Sample 1 5 \<in> set [Enter 0, Sample 0 2, Sample 0 3, Enter 1, Sample 1 4, Sample 1 5]
   \<and> Sample 0 1 \<notin> set [Enter 0, Sample 0 2, Sample 0 3, Enter 1, Sample 1 4, Sample 1 5]
   \<and> sorted_wrt (<) (samples [Enter 0, Sample 0 2, Sample 0 3, Enter 1, Sample 1 4, Sample 1 5])
   \<and> [Some (Fin 20), Some (Fin 40)] ! nat 1 \<noteq> NA_REAL"
proof -
  let ?x = "[Fin 0, Fin (1 / 2), Fin 1, Fin 2, Fin 3, Fin 5]"
  let ?y = "[Some (Fin 100), Some (Fin 200), Some (Fin 10), Some (Fin 20), Some (Fin 30),
             Some (Fin 40)]"
  let ?b = "[Fin 1, Fin 3, Fin 5]"
  let ?evs = "[Enter 0, Sample 0 2, Sample 0 3, Enter 1, Sample 1 4, Sample 1 5]"
  have br: "binYonX_breaks (Some ?b) None (Fin 1) (Fin 0) (Fin 0) 0 = Inr (2, ?b)"
    by code_simp
  have l0: "dlt (?x ! nat 0) (?b ! 0)" and l1: "dlt (?x ! nat 1) (?b ! 0)"
    by simp_all
  have low: "\<forall>m. 0 \<le> m \<and> m < 2 \<longrightarrow> dlt (?x ! nat m) (?b ! 0)"
  proof (intro allI impI)
    fix m :: int assume "0 \<le> m \<and> m < 2"
    then have "m = 0 \<or> m = 1" by auto
    then show "dlt (?x ! nat m) (?b ! 0)" by auto
  qed
  have ax: "ascending ?x 2 5" by code_simp
  have ab: "ascending ?b 0 2" by code_simp
  have ib: "in_bin ?b 2 1 (?x ! nat 5)" by code_simp
  have asg: "assignment ?x ?b 2 0 5 = Inr ?evs" by code_simp
  have res: "binYonX ?x ?y (Some ?b) None (Fin 1) (Fin 0) (Fin 0) 0 5 0 NA_REAL 1
      = Inr ([Fin 2, Fin 4], [Some (Fin 20), Some (Fin 40)])"
    by code_simp
  have y5: "rd ?y 5 = Inr (Some (Fin 40))" by (simp add: rd_def)
  have i1: "(0::int) \<le> 0" and i2: "(0::int) \<le> 2" and i3: "(2::int) \<le> 5"
    and i4: "5 < int (length ?x)" by simp_all
  note t = low_samples_excluded[OF br i1 i2 i3 i4 low, of ?y NA_REAL 1]
  from t have e: "binYonX ?x ?y (Some ?b) None (Fin 1) (Fin 0) (Fin 0) 0 5 0 NA_REAL 1
      = binYonX ?x ?y (Some ?b) None (Fin 1) (Fin 0) (Fin 0) 2 5 0 NA_REAL 1"
    by (rule conjunct1)
  from t[THEN conjunct2, THEN conjunct2, THEN conjunct1] obtain evs where
    a0: "assignment ?x ?b 2 0 5 = Inr evs"
    and a2: "assignment ?x ?b 2 2 5 = Inr evs"
    and fw: "sorted_wrt (<) (samples evs)"
    and sd: "\<forall>i k. Sample i k \<in> set evs \<longrightarrow> 2 \<le> k \<and> k \<le> 5 \<and> in_bin ?b 2 i (?x ! nat k)"
    and cp: "ascending ?x 2 5 \<and> ascending ?b 0 2
                \<longrightarrow> (\<forall>i k. 2 \<le> k \<and> k \<le> 5 \<and> in_bin ?b 2 i (?x ! nat k)
                       \<longrightarrow> Sample i k \<in> set evs)"
    and vl: "\<forall>bin_mids ans i k v.
                binYonX ?x ?y (Some ?b) None (Fin 1) (Fin 0) (Fin 0) 0 5 0 NA_REAL 1
                  = Inr (bin_mids, ans)
                \<and> Sample i k \<in> set evs \<and> rd ?y k = Inr (Some v)
                \<longrightarrow> ans ! nat i \<noteq> NA_REAL"
    by (elim exE conjE)
  from a0 asg have ev: "evs = ?evs" by simp
  from cp ax ab ib have s15: "Sample 1 5 \<in> set evs" by simp
  from sd have s01: "Sample 0 1 \<notin> set evs" by fastforce
  from vl res s15 y5 have v: "[Some (Fin 20), Some (Fin 40)] ! nat 1 \<noteq> NA_REAL" by blast
  from res e have res2: "binYonX ?x ?y (Some ?b) None (Fin 1) (Fin 0) (Fin 0) 2 5 0 NA_REAL 1
      = Inr ([Fin 2, Fin 4], [Some (Fin 20), Some (Fin 40)])" by simp
  from br l0 l1 ax ab ib e res2 a2 s15 s01 fw v show ?thesis
    unfolding ev by (intro conjI)
qed

end
